theory Spec2Isabelle
  imports Complex_Main
begin

section \<open>Numbers, errors and the window buffer\<close>

text \<open>
  The engines compute on Go \<^verbatim>\<open>float64\<close> values. They are modelled by the real numbers:
  every statement below is about the exact arithmetic of the update formulas, and rounding,
  overflow to infinity and NaN are not part of the model. \<^verbatim>\<open>math.Pow(x, float64(k))\<close> with
  a non-negative integer \<open>k\<close> is \<open>x ^ k\<close> (also \<open>0 ^ 0 = 1\<close>, as in Go). Go's \<^verbatim>\<open>int\<close> is
  modelled by \<open>int\<close> without wrap-around; loop indices that are used as slice indices are
  \<open>nat\<close>.
\<close>

text \<open>
  Modelled from the spec: \<^verbatim>\<open>mathutil.Sign\<close> (package util/math is not among the sources).
  The spec calls it the parity sign \<open>(-1)^k\<close>.
\<close>

definition Sign :: "int \<Rightarrow> int" where
  "Sign k = (if k mod 2 = 0 then 1 else - 1)"

text \<open>
  Modelled from the spec: \<^verbatim>\<open>mathutil.Binom\<close> (package util/math is not among the sources),
  the binomial coefficient.
\<close>

definition Binom :: "int \<Rightarrow> int \<Rightarrow> int" where
  "Binom n k = (if 0 \<le> k \<and> k \<le> n then int (nat n choose nat k) else 0)"

datatype error =
    ErrorNoValuesSeen
  | ErrorPoppingQueue
  | NotTrackedPowerSum int
  | NotTrackedTuple "int list"
  | NotTrackedVariable int
  | ArityMismatch nat nat
  | QueueEmpty
  | QueueFull
  | InvalidWindow
  | InvalidDecay
  | InvalidSums
  | LengthMismatch
  | NegativeComponent
  | Panic
  | Wrap string error

text \<open>
  Modelled from the spec: the window buffer (\<^verbatim>\<open>queue.RingBuffer\<close>, of a library outside the
  sources). A fixed-capacity, insertion-ordered bounded queue; the items are kept oldest
  first.
\<close>

record 'a RingBuffer =
  cap :: nat
  items :: "'a list"

text \<open>Modelled from the spec: \<^verbatim>\<open>queue.NewRingBuffer\<close>, the empty buffer of a capacity.\<close>

definition NewRingBuffer :: "nat \<Rightarrow> 'a RingBuffer" where
  "NewRingBuffer n = \<lparr>cap = n, items = []\<rparr>"

text \<open>Modelled from the spec: \<^verbatim>\<open>Len\<close>, the number of items held.\<close>

definition Len :: "'a RingBuffer \<Rightarrow> nat" where
  "Len q = length (items q)"

text \<open>
  Modelled from the spec: \<^verbatim>\<open>Get\<close> pops the oldest item; popping from an empty buffer is an
  error.
\<close>

definition Get :: "'a RingBuffer \<Rightarrow> error + ('a \<times> 'a RingBuffer)" where
  "Get q = (case items q of [] \<Rightarrow> Inl QueueEmpty | x # r \<Rightarrow> Inr (x, q\<lparr>items := r\<rparr>))"

text \<open>
  Modelled from the spec: \<^verbatim>\<open>Put\<close> inserts an item as the newest; pushing past the capacity
  is an error.
\<close>

definition Put :: "'a RingBuffer \<Rightarrow> 'a \<Rightarrow> error + 'a RingBuffer" where
  "Put q x = (if cap q \<le> length (items q) then Inl QueueFull
              else Inr (q\<lparr>items := items q @ [x]\<rparr>))"

text \<open>Modelled from the spec: \<^verbatim>\<open>Reset\<close> empties the buffer.\<close>

definition Reset :: "'a RingBuffer \<Rightarrow> 'a RingBuffer" where
  "Reset q = q\<lparr>items := []\<rparr>"

text \<open>
  The conversion \<^verbatim>\<open>uint64(c.window)\<close>. The window is validated to be non-negative when
  the engine is created, and a Go \<^verbatim>\<open>int\<close> is below \<open>2 ^ 64\<close>, so the conversion keeps the
  value; a negative window is mapped to its 64-bit wrap-around.
\<close>

definition uint64 :: "int \<Rightarrow> nat" where
  "uint64 w = (if 0 \<le> w then nat w else nat (w mod 2 ^ 64))"

section \<open>The univariate engine (package moment)\<close>

record Core =
  mean :: real
  sums_m :: "real list"
  count :: int
  window :: int
  decay :: "real option"
  queue :: "real RingBuffer"

text \<open>
  The configuration. \<^verbatim>\<open>Sums\<close> is a Go map keyed by the requested orders; only its keys are
  read, so it is the list of the keys (in any order).
\<close>

record CoreConfig =
  Sums :: "int list"
  Window :: "int option"
  Decay :: "real option"

text \<open>
  Modelled from the spec: \<^verbatim>\<open>setConfigDefaults\<close> of package moment (not among the sources).
  An unset window is unbounded (0).
\<close>

definition setConfigDefaults :: "CoreConfig \<Rightarrow> CoreConfig" where
  "setConfigDefaults config =
     (case Window config of None \<Rightarrow> config\<lparr>Window := Some 0\<rparr> | Some w \<Rightarrow> config)"

text \<open>
  Modelled from the spec: \<^verbatim>\<open>validateConfig\<close> of package moment (not among the sources).
  Validation fails when the window is negative, the decay is present and outside (0,1), or
  an order is non-positive.
\<close>

definition validateConfig :: "CoreConfig \<Rightarrow> error option" where
  "validateConfig config =
     (if (case Window config of None \<Rightarrow> True | Some w \<Rightarrow> w < 0) then Some InvalidWindow
      else if (case Decay config of None \<Rightarrow> False | Some d \<Rightarrow> d \<le> 0 \<or> 1 \<le> d)
        then Some InvalidDecay
      else if list_ex (\<lambda>k. k \<le> 0) (Sums config) then Some InvalidSums
      else None)"

text \<open>The loop \<^verbatim>\<open>for k := range config.Sums { if k > maxSum { maxSum = k } }\<close>.\<close>

definition maxSum :: "int list \<Rightarrow> int" where
  "maxSum ks = fold (\<lambda>k m. if k > m then k else m) ks (- 1)"

definition NewCore :: "CoreConfig \<Rightarrow> error + Core" where
  "NewCore config0 =
     (let config = setConfigDefaults config0 in
      case validateConfig config of
        Some err \<Rightarrow> Inl (Wrap ''error validating config'' err)
      | None \<Rightarrow>
         (case Window config of
            None \<Rightarrow> Inl Panic
          | Some w \<Rightarrow>
              Inr \<lparr>mean = 0,
                   sums_m = replicate (nat (maxSum (Sums config) + 1)) 0,
                   count = 0,
                   window = w,
                   decay = Decay config,
                   queue = NewRingBuffer (uint64 w)\<rparr>))"

text \<open>
  \<^verbatim>\<open>add\<close>: the inner loop \<^verbatim>\<open>for i := 1; i <= k-2; i++\<close> adds to \<^verbatim>\<open>c.sums[k]\<close> in place,
  the outer loop runs \<^verbatim>\<open>k\<close> from \<^verbatim>\<open>len(c.sums)-1\<close> down to 2.
\<close>

definition add_inner :: "real \<Rightarrow> real \<Rightarrow> nat \<Rightarrow> real list \<Rightarrow> real list" where
  "add_inner cnt delta k s =
     fold (\<lambda>i s. s[k := s ! k +
                    real_of_int (Binom (int k) (int i) * Sign (int i)) *
                    (delta / cnt) ^ i * s ! (k - i)])
          [1..<k - 1] s"

definition add_order :: "real \<Rightarrow> real \<Rightarrow> nat \<Rightarrow> real list \<Rightarrow> real list" where
  "add_order cnt delta k s =
     add_inner cnt delta k
       (s[k := s ! k +
           (cnt - 1) / cnt ^ k * ((cnt - 1) ^ (k - 1) + real_of_int (Sign (int k))) *
           delta ^ k])"

definition add :: "Core \<Rightarrow> real \<Rightarrow> Core" where
  "add c x =
     (let n = count c + 1;
          cnt = real_of_int n;
          delta = x - mean c
      in c\<lparr>count := n,
           mean := mean c + delta / cnt,
           sums_m := fold (add_order cnt delta) (rev [2..<length (sums_m c)]) (sums_m c)\<rparr>)"

text \<open>
  \<^verbatim>\<open>addDecay\<close>: the local \<^verbatim>\<open>old\<close> is accumulated and stored into \<^verbatim>\<open>c.sums[k]\<close> last.
  It is only called when \<^verbatim>\<open>c.decay\<close> is not nil; the value read through a nil pointer
  (a panic in Go) is fixed to 0 here and never used.
\<close>

definition addDecay_order :: "real \<Rightarrow> real \<Rightarrow> nat \<Rightarrow> real list \<Rightarrow> real list" where
  "addDecay_order dec delta k s =
     (let old0 = (1 - dec) * s ! k;
          coeff = (1 - dec) * (- dec) ^ k + dec * (1 - dec) ^ k;
          term = delta ^ k;
          old1 = old0 + coeff * term;
          old2 = fold (\<lambda>i old. old +
                         real_of_int (Binom (int k) (int i) * Sign (int i)) *
                         (dec * delta) ^ i * (1 - dec) * s ! (k - i))
                      [1..<k - 1] old1
      in s[k := old2])"

definition addDecay :: "Core \<Rightarrow> real \<Rightarrow> Core" where
  "addDecay c x =
     (let n = count c + 1;
          dec = (if n = 1 then 1 else (case decay c of Some d \<Rightarrow> d | None \<Rightarrow> 0));
          delta = x - mean c
      in c\<lparr>count := n,
           mean := mean c + dec * delta,
           sums_m := fold (addDecay_order dec delta) (rev [2..<length (sums_m c)]) (sums_m c)\<rparr>)"

text \<open>\<^verbatim>\<open>remove\<close>: the outer loop runs \<^verbatim>\<open>k\<close> upwards from 2 to \<^verbatim>\<open>len(c.sums)-1\<close>.\<close>

definition remove_inner :: "real \<Rightarrow> real \<Rightarrow> nat \<Rightarrow> real list \<Rightarrow> real list" where
  "remove_inner cnt delta k s =
     fold (\<lambda>i s. s[k := s ! k -
                    real_of_int (Binom (int k) (int i) * Sign (int i)) *
                    (delta / (cnt + 1)) ^ i * s ! (k - i)])
          [1..<k - 1] s"

definition remove_order :: "real \<Rightarrow> real \<Rightarrow> nat \<Rightarrow> real list \<Rightarrow> real list" where
  "remove_order cnt delta k s =
     remove_inner cnt delta k
       (s[k := s ! k -
           cnt / (cnt + 1) ^ k * (cnt ^ (k - 1) + real_of_int (Sign (int k))) *
           delta ^ k])"

definition remove :: "Core \<Rightarrow> real \<Rightarrow> Core" where
  "remove c x =
     (let n = count c - 1 in
      if n > 0 then
        (let cnt = real_of_int n;
             m = mean c - (x - mean c) / cnt;
             delta = x - m
         in c\<lparr>count := n,
              mean := m,
              sums_m := fold (remove_order cnt delta) [2..<length (sums_m c)] (sums_m c)\<rparr>)
      else c\<lparr>count := n, mean := 0, sums_m := map (\<lambda>_. 0) (sums_m c)\<rparr>)"

text \<open>
  \<^verbatim>\<open>UnsafePush\<close> mutates the core in place and returns an error value; the model returns
  the core as it is left together with the error, if any.
\<close>

definition UnsafePush :: "Core \<Rightarrow> real \<Rightarrow> Core \<times> error option" where
  "UnsafePush c x =
     (let r1 =
        (if window c \<noteq> 0 then
           (let r0 =
              (if Len (queue c) = uint64 (window c) then
                 (case Get (queue c) of
                    Inl err \<Rightarrow> (c, Some ErrorPoppingQueue)
                  | Inr (tail, q) \<Rightarrow> (remove (c\<lparr>queue := q\<rparr>) tail, None))
               else (c, None))
            in case r0 of
                 (c0, Some err) \<Rightarrow> (c0, Some err)
               | (c0, None) \<Rightarrow>
                   (case Put (queue c0) x of
                      Inl err \<Rightarrow> (c0, Some (Wrap ''error pushing to queue'' err))
                    | Inr q \<Rightarrow> (c0\<lparr>queue := q\<rparr>, None)))
         else (c, None))
      in case r1 of
           (c1, Some err) \<Rightarrow> (c1, Some err)
         | (c1, None) \<Rightarrow>
             (if decay c1 = None then (add c1 x, None) else (addDecay c1 x, None)))"

definition UnsafeCount :: "Core \<Rightarrow> int" where
  "UnsafeCount c = count c"

definition UnsafeMean :: "Core \<Rightarrow> error + real" where
  "UnsafeMean c = (if count c = 0 then Inl ErrorNoValuesSeen else Inr (mean c))"

definition UnsafeSum :: "Core \<Rightarrow> int \<Rightarrow> error + real" where
  "UnsafeSum c k =
     (if count c = 0 then Inl ErrorNoValuesSeen
      else if k \<le> 0 \<or> k \<ge> int (length (sums_m c)) then Inl (NotTrackedPowerSum k)
      else Inr (sums_m c ! nat k))"

definition UnsafeClear :: "Core \<Rightarrow> Core" where
  "UnsafeClear c =
     c\<lparr>sums_m := map (\<lambda>_. 0) (sums_m c), count := 0, mean := 0, queue := Reset (queue c)\<rparr>"

text \<open>Pushing a sequence of observations, stopping at the first error.\<close>

fun pushAll :: "Core \<Rightarrow> real list \<Rightarrow> Core \<times> error option" where
  "pushAll c [] = (c, None)"
| "pushAll c (x # xs) =
     (case UnsafePush c x of
        (c', Some err) \<Rightarrow> (c', Some err)
      | (c', None) \<Rightarrow> pushAll c' xs)"

text \<open>
  The reachable states of an engine: created by \<^verbatim>\<open>NewCore\<close> from a configuration, then
  changed by \<^verbatim>\<open>UnsafePush\<close> (whatever it returns) and \<^verbatim>\<open>UnsafeClear\<close> only.
\<close>

inductive reachable :: "CoreConfig \<Rightarrow> Core \<Rightarrow> bool" where
  reachable_new: "NewCore config = Inr c \<Longrightarrow> reachable config c"
| reachable_push: "reachable config c \<Longrightarrow> reachable config (fst (UnsafePush c x))"
| reachable_clear: "reachable config c \<Longrightarrow> reachable config (UnsafeClear c)"

section \<open>Tuples (package joint)\<close>

type_synonym Tuple = "int list"

text \<open>
  The tuple algebra of package joint (\<^verbatim>\<open>abs\<close>, \<^verbatim>\<open>eq\<close>, \<^verbatim>\<open>hash\<close>, \<^verbatim>\<open>sub\<close>, \<^verbatim>\<open>multinom\<close>,
  \<^verbatim>\<open>pow\<close> and \<^verbatim>\<open>iter\<close>) is not among the sources. The operations on two sequences fail
  when the lengths differ.
\<close>

text \<open>Modelled from the spec: \<^verbatim>\<open>abs\<close>, the magnitude of a tuple, the sum of its components.\<close>

definition abs_T :: "Tuple \<Rightarrow> int" where
  "abs_T t = sum_list t"

text \<open>Modelled from the spec: \<^verbatim>\<open>eq\<close>; two tuples are equal iff they are componentwise equal.\<close>

definition eq :: "Tuple \<Rightarrow> Tuple \<Rightarrow> bool" where
  "eq a b \<longleftrightarrow> a = b"

text \<open>
  Modelled from the spec: \<^verbatim>\<open>sub\<close>, the componentwise subtraction, which fails if a
  component of the result is negative.
\<close>

definition sub :: "Tuple \<Rightarrow> Tuple \<Rightarrow> error + Tuple" where
  "sub a b =
     (if length a \<noteq> length b then Inl LengthMismatch
      else if list_ex (\<lambda>d. d < 0) (map2 (-) a b) then Inl NegativeComponent
      else Inr (map2 (-) a b))"

text \<open>
  Modelled from the spec: \<^verbatim>\<open>multinom\<close>, the multinomial coefficient between a tuple and a
  sub-tuple: the product of the binomial coefficients of the components.
\<close>

definition multinom :: "Tuple \<Rightarrow> Tuple \<Rightarrow> error + int" where
  "multinom a b =
     (if length a \<noteq> length b then Inl LengthMismatch
      else Inr (prod_list (map2 Binom a b)))"

text \<open>Modelled from the spec: \<^verbatim>\<open>pow\<close>, the product of the powers \<open>x\<^sub>i ^ t\<^sub>i\<close>.\<close>

definition pow :: "real list \<Rightarrow> Tuple \<Rightarrow> error + real" where
  "pow xs t =
     (if length xs \<noteq> length t then Inl LengthMismatch
      else Inr (prod_list (map2 (\<lambda>x k. x ^ nat k) xs t)))"

text \<open>
  Modelled from the spec: \<^verbatim>\<open>hash\<close>, the identity of a tuple as an accumulator key. The spec
  requires it to be collision-free on the tuples of an engine, so the key of a tuple is the
  tuple itself and the Go maps \<^verbatim>\<open>map[uint64]float64\<close> are maps from tuples.
\<close>

definition hash :: "Tuple \<Rightarrow> Tuple" where
  "hash t = t"

text \<open>Reading a Go map gives the zero value for a missing key.\<close>

definition get0 :: "(Tuple \<rightharpoonup> real) \<Rightarrow> Tuple \<Rightarrow> real" where
  "get0 m h = (case m h of Some v \<Rightarrow> v | None \<Rightarrow> 0)"

text \<open>
  A loop over a list whose body may fail: it stops at the first error and returns it,
  with the state as the body left it.
\<close>

fun for_each :: "('a \<Rightarrow> 's \<Rightarrow> 's \<times> error option) \<Rightarrow> 'a list \<Rightarrow> 's \<Rightarrow> 's \<times> error option" where
  "for_each cb [] s = (s, None)"
| "for_each cb (a # as) s =
     (case cb a s of
        (s', Some err) \<Rightarrow> (s', Some err)
      | (s', None) \<Rightarrow> for_each cb as s')"

text \<open>
  The pattern \<^verbatim>\<open>if err != nil { return errors.Wrap(err, msg) }\<close> on the result of a call
  that has left the state \<open>s\<close>.
\<close>

definition wrap_err :: "string \<Rightarrow> 's \<times> error option \<Rightarrow> 's \<times> error option" where
  "wrap_err msg r =
     (case r of (s, Some err) \<Rightarrow> (s, Some (Wrap msg err)) | (s, None) \<Rightarrow> (s, None))"

text \<open>
  Modelled from the spec: the tuples that \<^verbatim>\<open>iter\<close> visits for a tuple, every \<open>b\<close> with
  \<open>0 \<le> b \<le> tuple\<close> componentwise, here in lexicographic order.
\<close>

fun tuples_upto :: "Tuple \<Rightarrow> Tuple list" where
  "tuples_upto [] = [ []]"
| "tuples_upto (n # ns) = concat (map (\<lambda>i. map ((#) i) (tuples_upto ns)) [0..n])"

text \<open>
  Modelled from the spec: the order in which \<^verbatim>\<open>iter\<close> visits them, increasing in magnitude.
  The spec does not say what the Boolean argument of \<^verbatim>\<open>iter\<close> does: it is taken to reverse
  the order, as the univariate engine iterates downwards in \<^verbatim>\<open>add\<close> (which calls
  \<^verbatim>\<open>iter\<close> with \<^verbatim>\<open>true\<close>) and upwards in \<^verbatim>\<open>remove\<close> (which calls it with \<^verbatim>\<open>false\<close>).
\<close>

definition iter_order :: "Tuple \<Rightarrow> bool \<Rightarrow> Tuple list" where
  "iter_order t reverse =
     (let bs = sort_key abs_T (tuples_upto t) in if reverse then rev bs else bs)"

text \<open>
  Modelled from the spec: \<^verbatim>\<open>iter(tuple, flag, cb)\<close> calls \<^verbatim>\<open>cb\<close> on every such tuple and returns
  the first error of the callback.
\<close>

definition iter :: "Tuple \<Rightarrow> bool \<Rightarrow> (Tuple \<Rightarrow> 's \<Rightarrow> 's \<times> error option) \<Rightarrow> 's \<Rightarrow> 's \<times> error option" where
  "iter t reverse cb s = for_each cb (iter_order t reverse) s"

section \<open>The joint engine (package joint)\<close>

record JointCore =
  means :: "real list"
  tuples :: "Tuple list"
  sums_j :: "Tuple \<rightharpoonup> real"
  newSums :: "Tuple \<rightharpoonup> real"
  count_j :: int
  window_j :: int
  decay_j :: "real option"
  queue_j :: "real list RingBuffer"

record JointConfig =
  Sums_j :: "Tuple list"
  Window_j :: "int option"
  Decay_j :: "real option"
  Vars :: "int option"

text \<open>
  Modelled from the spec: \<^verbatim>\<open>setConfigDefaults\<close> of package joint (not among the sources).
  An unset window is unbounded (0).
\<close>

definition setConfigDefaults_j :: "JointConfig \<Rightarrow> JointConfig" where
  "setConfigDefaults_j config =
     (case Window_j config of None \<Rightarrow> config\<lparr>Window_j := Some 0\<rparr> | Some w \<Rightarrow> config)"

text \<open>
  Modelled from the spec: \<^verbatim>\<open>validateConfig\<close> of package joint (not among the sources).
  Validation fails when the window is negative, the decay is present and outside (0,1),
  the tuples disagree in length (among themselves or with a given variable count), or a
  tuple has a negative component or is not positive in magnitude.
\<close>

definition validateConfig_j :: "JointConfig \<Rightarrow> error option" where
  "validateConfig_j config =
     (if (case Window_j config of None \<Rightarrow> True | Some w \<Rightarrow> w < 0) then Some InvalidWindow
      else if (case Decay_j config of None \<Rightarrow> False | Some d \<Rightarrow> d \<le> 0 \<or> 1 \<le> d)
        then Some InvalidDecay
      else if list_ex (\<lambda>t. length t \<noteq> length (hd (Sums_j config))) (Sums_j config)
        then Some LengthMismatch
      else if (case Vars config of None \<Rightarrow> False
               | Some v \<Rightarrow> v < 0 \<or> list_ex (\<lambda>t. int (length t) \<noteq> v) (Sums_j config))
        then Some LengthMismatch
      else if list_ex (\<lambda>t. list_ex (\<lambda>e. e < 0) t \<or> abs_T t \<le> 0) (Sums_j config)
        then Some InvalidSums
      else None)"

definition NewCore_j :: "JointConfig \<Rightarrow> error + JointCore" where
  "NewCore_j config0 =
     (let config = setConfigDefaults_j config0 in
      case validateConfig_j config of
        Some err \<Rightarrow> Inl (Wrap ''error validating config'' err)
      | None \<Rightarrow>
         (let vars = (if Vars config = None \<and> 0 < length (Sums_j config)
                      then Some (int (length (hd (Sums_j config)))) else Vars config);
              init = fold (\<lambda>tuple m. fst (iter tuple False (\<lambda>xs m. (m(hash xs \<mapsto> 0), None)) m))
                       (Sums_j config) Map.empty
          in case (Window_j config, vars) of
               (Some w, Some v) \<Rightarrow>
                 Inr \<lparr>means = replicate (nat v) 0,
                      tuples = Sums_j config,
                      sums_j = init,
                      newSums = init,
                      count_j = 0,
                      window_j = w,
                      decay_j = Decay_j config,
                      queue_j = NewRingBuffer (uint64 w)\<rparr>
             | _ \<Rightarrow> Inl Panic))"

text \<open>
  The loop over \<^verbatim>\<open>xs\<close> at the start of \<^verbatim>\<open>add\<close>, on the pair of \<^verbatim>\<open>delta\<close> and \<^verbatim>\<open>c.means\<close>.
  Both slices have the length of \<^verbatim>\<open>c.means\<close>; an index beyond it is a panic in Go, which
  the callers below report before running the loop.
\<close>

definition add_means :: "real \<Rightarrow> real list \<Rightarrow> real list \<Rightarrow> real list \<times> real list" where
  "add_means cnt xs ms =
     fold (\<lambda>i (delta, ms).
             (delta[i := xs ! i - ms ! i], ms[i := ms ! i + (xs ! i - ms ! i) / cnt]))
          [0..<length xs] (replicate (length ms) 0, ms)"

definition addDecay_means :: "real \<Rightarrow> real list \<Rightarrow> real list \<Rightarrow> real list \<times> real list" where
  "addDecay_means dec xs ms =
     fold (\<lambda>i (delta, ms).
             (delta[i := xs ! i - ms ! i], ms[i := ms ! i + dec * (xs ! i - ms ! i)]))
          [0..<length xs] (replicate (length ms) 0, ms)"

definition remove_means :: "real \<Rightarrow> real list \<Rightarrow> real list \<Rightarrow> real list \<times> real list" where
  "remove_means cnt xs ms =
     fold (\<lambda>i (delta, ms).
             (let m = ms ! i - (xs ! i - ms ! i) / cnt in (delta[i := xs ! i - m], ms[i := m])))
          [0..<length xs] (replicate (length ms) 0, ms)"

text \<open>The statement \<^verbatim>\<open>c.newSums[hash] += v\<close>.\<close>

definition newSums_add :: "Tuple \<Rightarrow> real \<Rightarrow> JointCore \<Rightarrow> JointCore" where
  "newSums_add h v c = c\<lparr>newSums := (newSums c)(h \<mapsto> get0 (newSums c) h + v)\<rparr>"

text \<open>The inner callback of \<^verbatim>\<open>add\<close>, for the tuple \<open>a\<close> of the outer callback and a tuple \<open>b\<close>.\<close>

definition add_term :: "real \<Rightarrow> real list \<Rightarrow> Tuple \<Rightarrow> Tuple \<Rightarrow> JointCore \<Rightarrow> JointCore \<times> error option" where
  "add_term cnt delta a b c =
     (case pow delta b of
        Inl err \<Rightarrow> (c, Some err)
      | Inr deltaPow \<Rightarrow>
         (let abs = abs_T b in
          if abs = 0 then (newSums_add (hash a) (get0 (sums_j c) (hash a)) c, None)
          else if eq b a then
            (let coeff = (cnt - 1) / cnt ^ nat abs *
                         ((cnt - 1) ^ nat (abs - 1) + real_of_int (Sign abs))
             in (newSums_add (hash a) (coeff * deltaPow) c, None))
          else
            (case multinom a b of
               Inl err \<Rightarrow> (c, Some err)
             | Inr multinomial \<Rightarrow>
                (case sub a b of
                   Inl err \<Rightarrow> (c, Some err)
                 | Inr diff \<Rightarrow>
                    (newSums_add (hash a)
                       (real_of_int (multinomial * Sign abs) / cnt ^ nat abs * deltaPow *
                        get0 (sums_j c) (hash diff)) c, None)))))"

text \<open>The outer callback of \<^verbatim>\<open>add\<close>.\<close>

definition add_tuple :: "real \<Rightarrow> real list \<Rightarrow> Tuple \<Rightarrow> JointCore \<Rightarrow> JointCore \<times> error option" where
  "add_tuple cnt delta a c =
     iter a False (add_term cnt delta a) (c\<lparr>newSums := (newSums c)(hash a \<mapsto> 0)\<rparr>)"

text \<open>The commit \<^verbatim>\<open>for hash, sum := range c.newSums { c.sums[hash] = sum }\<close>.\<close>

definition commit :: "JointCore \<Rightarrow> JointCore" where
  "commit c = c\<lparr>sums_j := sums_j c ++ newSums c\<rparr>"

text \<open>The loop over \<^verbatim>\<open>c.tuples\<close> in \<^verbatim>\<open>add\<close> and the commit after it.\<close>

definition add_sums :: "real \<Rightarrow> real list \<Rightarrow> JointCore \<Rightarrow> JointCore \<times> error option" where
  "add_sums cnt delta c =
     (case for_each
             (\<lambda>tuple s. wrap_err ''error adding to sums for tuple''
                           (iter tuple True (add_tuple cnt delta) s))
             (tuples c) c of
        (c', Some err) \<Rightarrow> (c', Some err)
      | (c', None) \<Rightarrow> (commit c', None))"

definition add_j :: "JointCore \<Rightarrow> real list \<Rightarrow> JointCore \<times> error option" where
  "add_j c0 xs =
     (let c = c0\<lparr>count_j := count_j c0 + 1\<rparr>;
          cnt = real_of_int (count_j c)
      in if length (means c) < length xs then (c, Some Panic)
         else
           (case add_means cnt xs (means c) of
              (delta, ms) \<Rightarrow> add_sums cnt delta (c\<lparr>means := ms\<rparr>)))"

text \<open>\<^verbatim>\<open>addDecay\<close> of the joint engine, built like \<^verbatim>\<open>add\<close>.\<close>

definition addDecay_term :: "real \<Rightarrow> real list \<Rightarrow> Tuple \<Rightarrow> Tuple \<Rightarrow> JointCore \<Rightarrow> JointCore \<times> error option" where
  "addDecay_term dec delta a b c =
     (case pow delta b of
        Inl err \<Rightarrow> (c, Some err)
      | Inr deltaPow \<Rightarrow>
         (let abs = abs_T b in
          if abs = 0 then (newSums_add (hash a) ((1 - dec) * get0 (sums_j c) (hash a)) c, None)
          else if eq b a then
            (let coeff = (1 - dec) * (- dec) ^ nat abs + dec * (1 - dec) ^ nat abs
             in (newSums_add (hash a) (coeff * deltaPow) c, None))
          else
            (case multinom a b of
               Inl err \<Rightarrow> (c, Some err)
             | Inr multinomial \<Rightarrow>
                (case sub a b of
                   Inl err \<Rightarrow> (c, Some err)
                 | Inr diff \<Rightarrow>
                    (newSums_add (hash a)
                       (real_of_int (multinomial * Sign abs) * dec ^ nat abs * deltaPow *
                        (1 - dec) * get0 (sums_j c) (hash diff)) c, None)))))"

definition addDecay_tuple :: "real \<Rightarrow> real list \<Rightarrow> Tuple \<Rightarrow> JointCore \<Rightarrow> JointCore \<times> error option" where
  "addDecay_tuple dec delta a c =
     iter a False (addDecay_term dec delta a) (c\<lparr>newSums := (newSums c)(hash a \<mapsto> 0)\<rparr>)"

definition addDecay_sums :: "real \<Rightarrow> real list \<Rightarrow> JointCore \<Rightarrow> JointCore \<times> error option" where
  "addDecay_sums dec delta c =
     (case for_each
             (\<lambda>tuple s. wrap_err ''error adding to sums for tuple''
                           (iter tuple True (addDecay_tuple dec delta) s))
             (tuples c) c of
        (c', Some err) \<Rightarrow> (c', Some err)
      | (c', None) \<Rightarrow> (commit c', None))"

definition addDecay_j :: "JointCore \<Rightarrow> real list \<Rightarrow> JointCore \<times> error option" where
  "addDecay_j c0 xs =
     (let c = c0\<lparr>count_j := count_j c0 + 1\<rparr>;
          dec = (if count_j c = 1 then 1 else (case decay_j c of Some d \<Rightarrow> d | None \<Rightarrow> 0))
      in if length (means c) < length xs then (c, Some Panic)
         else
           (case addDecay_means dec xs (means c) of
              (delta, ms) \<Rightarrow> addDecay_sums dec delta (c\<lparr>means := ms\<rparr>)))"

text \<open>
  \<^verbatim>\<open>remove\<close> of the joint engine. The cross term reads \<^verbatim>\<open>c.newSums[diff.hash()]\<close>.
\<close>

definition remove_term :: "real \<Rightarrow> real list \<Rightarrow> Tuple \<Rightarrow> Tuple \<Rightarrow> JointCore \<Rightarrow> JointCore \<times> error option" where
  "remove_term cnt delta a b c =
     (case pow delta b of
        Inl err \<Rightarrow> (c, Some err)
      | Inr deltaPow \<Rightarrow>
         (let abs = abs_T b in
          if abs = 0 then (newSums_add (hash a) (get0 (sums_j c) (hash a)) c, None)
          else if eq b a then
            (let coeff = cnt / (cnt + 1) ^ nat abs *
                         (cnt ^ nat (abs - 1) + real_of_int (Sign abs))
             in (newSums_add (hash a) (- (coeff * deltaPow)) c, None))
          else
            (case multinom a b of
               Inl err \<Rightarrow> (c, Some err)
             | Inr multinomial \<Rightarrow>
                (case sub a b of
                   Inl err \<Rightarrow> (c, Some err)
                 | Inr diff \<Rightarrow>
                    (newSums_add (hash a)
                       (- (real_of_int (multinomial * Sign abs) / (cnt + 1) ^ nat abs * deltaPow *
                           get0 (newSums c) (hash diff))) c, None)))))"

definition remove_tuple :: "real \<Rightarrow> real list \<Rightarrow> Tuple \<Rightarrow> JointCore \<Rightarrow> JointCore \<times> error option" where
  "remove_tuple cnt delta a c =
     iter a False (remove_term cnt delta a) (c\<lparr>newSums := (newSums c)(hash a \<mapsto> 0)\<rparr>)"

text \<open>The loop over \<^verbatim>\<open>c.tuples\<close> in \<^verbatim>\<open>remove\<close>, with the commit inside it.\<close>

definition remove_sums :: "real \<Rightarrow> real list \<Rightarrow> JointCore \<Rightarrow> JointCore \<times> error option" where
  "remove_sums cnt delta c =
     for_each
       (\<lambda>tuple s.
          case wrap_err ''error removing from sums for tuple''
                 (iter tuple False (remove_tuple cnt delta) s) of
            (c', Some err) \<Rightarrow> (c', Some err)
          | (c', None) \<Rightarrow> (commit c', None))
       (tuples c) c"

definition remove_j :: "JointCore \<Rightarrow> real list \<Rightarrow> JointCore \<times> error option" where
  "remove_j c0 xs =
     (let c = c0\<lparr>count_j := count_j c0 - 1\<rparr> in
      if count_j c > 0 then
        (let cnt = real_of_int (count_j c) in
         if length (means c) < length xs then (c, Some Panic)
         else
           (case remove_means cnt xs (means c) of
              (delta, ms) \<Rightarrow> remove_sums cnt delta (c\<lparr>means := ms\<rparr>)))
      else
        (c\<lparr>means := map (\<lambda>_. 0) (means c),
           sums_j := map_option (\<lambda>_. 0) \<circ> sums_j c,
           newSums := map_option (\<lambda>_. 0) \<circ> newSums c\<rparr>, None))"

definition UnsafePush_j :: "JointCore \<Rightarrow> real list \<Rightarrow> JointCore \<times> error option" where
  "UnsafePush_j c xs =
     (if length xs \<noteq> length (means c) then
        (c, Some (ArityMismatch (length xs) (length (means c))))
      else
        (let r1 =
           (if window_j c \<noteq> 0 then
              (let r0 =
                 (if Len (queue_j c) = uint64 (window_j c) then
                    (case Get (queue_j c) of
                       Inl err \<Rightarrow> (c, Some (Wrap ''error popping item from queue'' err))
                     | Inr (tail, q) \<Rightarrow>
                         wrap_err ''error removing from sums''
                           (remove_j (c\<lparr>queue_j := q\<rparr>) tail))
                  else (c, None))
               in case r0 of
                    (c0, Some err) \<Rightarrow> (c0, Some err)
                  | (c0, None) \<Rightarrow>
                      (case Put (queue_j c0) xs of
                         Inl err \<Rightarrow> (c0, Some (Wrap ''error pushing to queue'' err))
                       | Inr q \<Rightarrow> (c0\<lparr>queue_j := q\<rparr>, None)))
            else (c, None))
         in case r1 of
              (c1, Some err) \<Rightarrow> (c1, Some err)
            | (c1, None) \<Rightarrow>
                wrap_err ''error adding to sums''
                  (if decay_j c1 = None then add_j c1 xs else addDecay_j c1 xs)))"

definition UnsafeCount_j :: "JointCore \<Rightarrow> int" where
  "UnsafeCount_j c = count_j c"

definition UnsafeMean_j :: "JointCore \<Rightarrow> int \<Rightarrow> error + real" where
  "UnsafeMean_j c i =
     (if count_j c = 0 then Inl ErrorNoValuesSeen
      else if i < 0 \<or> i \<ge> int (length (means c)) then Inl (NotTrackedVariable i)
      else Inr (means c ! nat i))"

definition UnsafeSum_j :: "JointCore \<Rightarrow> Tuple \<Rightarrow> error + real" where
  "UnsafeSum_j c xs =
     (if count_j c = 0 then Inl ErrorNoValuesSeen
      else (case sums_j c (hash xs) of
              None \<Rightarrow> Inl (NotTrackedTuple xs)
            | Some v \<Rightarrow> Inr v))"

definition UnsafeClear_j :: "JointCore \<Rightarrow> JointCore" where
  "UnsafeClear_j c =
     c\<lparr>means := map (\<lambda>_. 0) (means c),
       sums_j := map_option (\<lambda>_. 0) \<circ> sums_j c,
       newSums := map_option (\<lambda>_. 0) \<circ> newSums c,
       count_j := 0,
       queue_j := NewRingBuffer (uint64 (window_j c))\<rparr>"

fun pushAll_j :: "JointCore \<Rightarrow> real list list \<Rightarrow> JointCore \<times> error option" where
  "pushAll_j c [] = (c, None)"
| "pushAll_j c (xs # xss) =
     (case UnsafePush_j c xs of
        (c', Some err) \<Rightarrow> (c', Some err)
      | (c', None) \<Rightarrow> pushAll_j c' xss)"

inductive reachable_j :: "JointConfig \<Rightarrow> JointCore \<Rightarrow> bool" where
  reachable_j_new: "NewCore_j config = Inr c \<Longrightarrow> reachable_j config c"
| reachable_j_push: "reachable_j config c \<Longrightarrow> reachable_j config (fst (UnsafePush_j c xs))"
| reachable_j_clear: "reachable_j config c \<Longrightarrow> reachable_j config (UnsafeClear_j c)"

section \<open>Invariants\<close>

text \<open>
  The invariant of the reachable states of the univariate engine: the window is not
  negative and is the capacity of the buffer; a windowed engine counts the items of its
  buffer; the count is not negative; with count 0 the mean and every accumulator are 0; the
  accumulators of the orders 0 and 1 are 0.
\<close>

definition core_inv :: "Core \<Rightarrow> bool" where
  "core_inv c \<longleftrightarrow>
     0 \<le> window c \<and> cap (queue c) = nat (window c) \<and>
     (window c \<noteq> 0 \<longrightarrow> count c = int (Len (queue c))) \<and>
     Len (queue c) \<le> nat (window c) \<and>
     0 \<le> count c \<and>
     (count c = 0 \<longrightarrow> mean c = 0 \<and> (\<forall>v\<in>set (sums_m c). v = 0)) \<and>
     (\<forall>j<length (sums_m c). j < 2 \<longrightarrow> sums_m c ! j = 0)"

text \<open>
  What the callbacks of the joint engine leave alone: everything but the scratch
  accumulators (\<open>frame\<close>); and what \<^verbatim>\<open>add\<close>, \<^verbatim>\<open>addDecay\<close> and \<^verbatim>\<open>remove\<close> leave alone after
  the count and the means are set: everything but the accumulators (\<open>frame_sums\<close>).
\<close>

definition frame :: "JointCore \<Rightarrow> JointCore \<Rightarrow> bool" where
  "frame c s \<longleftrightarrow>
     means s = means c \<and> tuples s = tuples c \<and> sums_j s = sums_j c \<and>
     count_j s = count_j c \<and> window_j s = window_j c \<and> decay_j s = decay_j c \<and>
     queue_j s = queue_j c"

definition frame_sums :: "JointCore \<Rightarrow> JointCore \<Rightarrow> bool" where
  "frame_sums c s \<longleftrightarrow>
     means s = means c \<and> tuples s = tuples c \<and>
     count_j s = count_j c \<and> window_j s = window_j c \<and> decay_j s = decay_j c \<and>
     queue_j s = queue_j c"

text \<open>The invariant of the reachable states of the joint engine.\<close>

definition jinv :: "JointCore \<Rightarrow> bool" where
  "jinv c \<longleftrightarrow>
     0 \<le> window_j c \<and> cap (queue_j c) = nat (window_j c) \<and>
     (window_j c \<noteq> 0 \<longrightarrow> count_j c = int (Len (queue_j c))) \<and>
     Len (queue_j c) \<le> nat (window_j c) \<and>
     0 \<le> count_j c \<and>
     (count_j c = 0 \<longrightarrow>
        (\<forall>m\<in>set (means c). m = 0) \<and>
        (\<forall>h v. sums_j c h = Some v \<longrightarrow> v = 0) \<and>
        (\<forall>h v. newSums c h = Some v \<longrightarrow> v = 0))"

section \<open>Reference definitions and scenarios\<close>

text \<open>
  The centralized power sum as the spec's glossary defines it, recomputed from the raw
  observations: \<open>\<Sum>(x\<^sub>i - mean)^k\<close> over the observations in scope.
\<close>

definition spec_mean :: "real list \<Rightarrow> real" where
  "spec_mean xs = sum_list xs / real (length xs)"

definition spec_central_sum :: "nat \<Rightarrow> real list \<Rightarrow> real" where
  "spec_central_sum k xs = (\<Sum>x\<leftarrow>xs. (x - spec_mean xs) ^ k)"

text \<open>The unbounded, undecayed engine tracking the orders 1 to 4, new and after 1, 2, 3, 4.\<close>

definition scenario_config :: CoreConfig where
  "scenario_config = \<lparr>Sums = [1, 2, 3, 4], Window = None, Decay = None\<rparr>"

definition scenario_new :: Core where
  "scenario_new = \<lparr>mean = 0, sums_m = [0, 0, 0, 0, 0], count = 0, window = 0,
                    decay = None, queue = NewRingBuffer 0\<rparr>"

definition scenario_pushed :: Core where
  "scenario_pushed = \<lparr>mean = 5 / 2, sums_m = [0, 0, 5, 0, 41 / 4], count = 4, window = 0,
                       decay = None, queue = NewRingBuffer 0\<rparr>"


text \<open>The undecayed engine with window 3, new and after 1, 2, 3, 4, 8.\<close>

definition window_config :: CoreConfig where
  "window_config = \<lparr>Sums = [1, 2, 3, 4], Window = Some 3, Decay = None\<rparr>"

definition window_new :: Core where
  "window_new = \<lparr>mean = 0, sums_m = [0, 0, 0, 0, 0], count = 0, window = 3,
                  decay = None, queue = NewRingBuffer 3\<rparr>"

definition window_pushed :: Core where
  "window_pushed = \<lparr>mean = 5, sums_m = [0, 0, 14, 18, 98], count = 3, window = 3,
                     decay = None, queue = \<lparr>cap = 3, items = [3, 4, 8]\<rparr>\<rparr>"

text \<open>A decayed engine with window 2, new.\<close>

definition decayed_config :: CoreConfig where
  "decayed_config = \<lparr>Sums = [2], Window = Some 2, Decay = Some (1 / 4)\<rparr>"

definition decayed_new :: Core where
  "decayed_new = \<lparr>mean = 0, sums_m = [0, 0, 0], count = 0, window = 2,
                   decay = Some (1 / 4), queue = NewRingBuffer 2\<rparr>"

text \<open>Joint engines for the covariance \<open>(1,1)\<close> of two variables: decayed, and with window 2.\<close>

definition cov_config :: JointConfig where
  "cov_config = \<lparr>Sums_j = [ [1, 1]], Window_j = Some 0, Decay_j = Some (1 / 4), Vars = None\<rparr>"

definition cov_init :: "Tuple \<rightharpoonup> real" where
  "cov_init = [ [0, 0] \<mapsto> 0, [0, 1] \<mapsto> 0, [1, 0] \<mapsto> 0, [1, 1] \<mapsto> 0]"

definition cov_new :: JointCore where
  "cov_new = \<lparr>means = [0, 0], tuples = [ [1, 1]], sums_j = cov_init, newSums = cov_init,
               count_j = 0, window_j = 0, decay_j = Some (1 / 4), queue_j = NewRingBuffer 0\<rparr>"

definition cov_pushed :: JointCore where
  "cov_pushed = \<lparr>means = [3, 5], tuples = [ [1, 1]], sums_j = cov_init, newSums = cov_init,
                  count_j = 1, window_j = 0, decay_j = Some (1 / 4), queue_j = NewRingBuffer 0\<rparr>"

text \<open>The decayed univariate engine after its first push, of 3.\<close>

definition decayed_pushed :: Core where
  "decayed_pushed = \<lparr>mean = 3, sums_m = [0, 0, 0], count = 1, window = 2,
                      decay = Some (1 / 4), queue = \<lparr>cap = 2, items = [3]\<rparr>\<rparr>"


section \<open>The accumulator updates of the joint engine in closed form\<close>

text \<open>
  The tuples an engine tracks: every tuple below one of its target tuples. A core is
  well formed when every target tuple has one non-negative exponent per tracked variable,
  as validation at construction demands.
\<close>

definition tracked :: "JointCore \<Rightarrow> Tuple set" where
  "tracked c = (\<Union>t\<in>set (tuples c). set (tuples_upto t))"

definition wf_tuple :: "nat \<Rightarrow> Tuple \<Rightarrow> bool" where
  "wf_tuple n t \<longleftrightarrow> length t = n \<and> list_all (\<lambda>e. 0 \<le> e) t"

definition wf_core :: "JointCore \<Rightarrow> bool" where
  "wf_core c \<longleftrightarrow> list_all (wf_tuple (length (means c))) (tuples c)"

text \<open>The value of \<^verbatim>\<open>pow(delta, b)\<close> when the lengths agree.\<close>

definition pow_value :: "real list \<Rightarrow> Tuple \<Rightarrow> real" where
  "pow_value delta b = prod_list (map2 (\<lambda>x k. x ^ nat k) delta b)"

text \<open>
  What one call of the inner callback of \<^verbatim>\<open>add\<close> adds to the scratch accumulator of \<open>a\<close>,
  as a function of the committed sums \<open>S\<close>; and the sum of these over the inner loop.
\<close>

definition add_contrib :: "real \<Rightarrow> real list \<Rightarrow> (Tuple \<rightharpoonup> real) \<Rightarrow> Tuple \<Rightarrow> Tuple \<Rightarrow> real" where
  "add_contrib cnt delta S a b =
     (if abs_T b = 0 then get0 S a
      else if b = a then
        (cnt - 1) / cnt ^ nat (abs_T b) *
          ((cnt - 1) ^ nat (abs_T b - 1) + real_of_int (Sign (abs_T b))) * pow_value delta b
      else
        real_of_int (prod_list (map2 Binom a b) * Sign (abs_T b)) / cnt ^ nat (abs_T b) *
          pow_value delta b * get0 S (map2 (-) a b))"

definition add_value :: "real \<Rightarrow> real list \<Rightarrow> (Tuple \<rightharpoonup> real) \<Rightarrow> Tuple \<Rightarrow> real" where
  "add_value cnt delta S a = (\<Sum>b\<leftarrow>iter_order a False. add_contrib cnt delta S a b)"

definition addDecay_contrib :: "real \<Rightarrow> real list \<Rightarrow> (Tuple \<rightharpoonup> real) \<Rightarrow> Tuple \<Rightarrow> Tuple \<Rightarrow> real" where
  "addDecay_contrib dec delta S a b =
     (if abs_T b = 0 then (1 - dec) * get0 S a
      else if b = a then
        ((1 - dec) * (- dec) ^ nat (abs_T b) + dec * (1 - dec) ^ nat (abs_T b)) *
          pow_value delta b
      else
        real_of_int (prod_list (map2 Binom a b) * Sign (abs_T b)) * dec ^ nat (abs_T b) *
          pow_value delta b * (1 - dec) * get0 S (map2 (-) a b))"

definition addDecay_value :: "real \<Rightarrow> real list \<Rightarrow> (Tuple \<rightharpoonup> real) \<Rightarrow> Tuple \<Rightarrow> real" where
  "addDecay_value dec delta S a = (\<Sum>b\<leftarrow>iter_order a False. addDecay_contrib dec delta S a b)"

text \<open>
  The same for \<^verbatim>\<open>remove\<close>: the carry-forward term reads the committed sums \<open>S\<close>, the cross
  terms read the scratch accumulators \<open>N\<close>.
\<close>

definition remove_contrib ::
  "real \<Rightarrow> real list \<Rightarrow> (Tuple \<rightharpoonup> real) \<Rightarrow> (Tuple \<rightharpoonup> real) \<Rightarrow> Tuple \<Rightarrow> Tuple \<Rightarrow> real" where
  "remove_contrib cnt delta S N a b =
     (if abs_T b = 0 then get0 S a
      else if b = a then
        - (cnt / (cnt + 1) ^ nat (abs_T b) *
            (cnt ^ nat (abs_T b - 1) + real_of_int (Sign (abs_T b))) * pow_value delta b)
      else
        - (real_of_int (prod_list (map2 Binom a b) * Sign (abs_T b)) /
             (cnt + 1) ^ nat (abs_T b) * pow_value delta b * get0 N (map2 (-) a b)))"

definition remove_value ::
  "real \<Rightarrow> real list \<Rightarrow> (Tuple \<rightharpoonup> real) \<Rightarrow> (Tuple \<rightharpoonup> real) \<Rightarrow> Tuple \<Rightarrow> real" where
  "remove_value cnt delta S N a = (\<Sum>b\<leftarrow>iter_order a False. remove_contrib cnt delta S N a b)"

text \<open>
  Removal as the spec describes it, for comparison with \<^verbatim>\<open>remove\<close> of the source: the
  inverse coefficients, with the cross term reading the committed sum \<^verbatim>\<open>c.sums\<close> and one
  commit after the pass over all target tuples.
\<close>

definition remove_term_spec :: "real \<Rightarrow> real list \<Rightarrow> Tuple \<Rightarrow> Tuple \<Rightarrow> JointCore \<Rightarrow> JointCore \<times> error option" where
  "remove_term_spec cnt delta a b c =
     (case pow delta b of
        Inl err \<Rightarrow> (c, Some err)
      | Inr deltaPow \<Rightarrow>
         (let abs = abs_T b in
          if abs = 0 then (newSums_add (hash a) (get0 (sums_j c) (hash a)) c, None)
          else if eq b a then
            (let coeff = cnt / (cnt + 1) ^ nat abs *
                         (cnt ^ nat (abs - 1) + real_of_int (Sign abs))
             in (newSums_add (hash a) (- (coeff * deltaPow)) c, None))
          else
            (case multinom a b of
               Inl err \<Rightarrow> (c, Some err)
             | Inr multinomial \<Rightarrow>
                (case sub a b of
                   Inl err \<Rightarrow> (c, Some err)
                 | Inr diff \<Rightarrow>
                    (newSums_add (hash a)
                       (- (real_of_int (multinomial * Sign abs) / (cnt + 1) ^ nat abs * deltaPow *
                           get0 (sums_j c) (hash diff))) c, None)))))"

definition remove_tuple_spec :: "real \<Rightarrow> real list \<Rightarrow> Tuple \<Rightarrow> JointCore \<Rightarrow> JointCore \<times> error option" where
  "remove_tuple_spec cnt delta a c =
     iter a False (remove_term_spec cnt delta a) (c\<lparr>newSums := (newSums c)(hash a \<mapsto> 0)\<rparr>)"

definition remove_sums_spec :: "real \<Rightarrow> real list \<Rightarrow> JointCore \<Rightarrow> JointCore \<times> error option" where
  "remove_sums_spec cnt delta c =
     (case for_each
             (\<lambda>tuple s. wrap_err ''error removing from sums for tuple''
                           (iter tuple False (remove_tuple_spec cnt delta) s))
             (tuples c) c of
        (c', Some err) \<Rightarrow> (c', Some err)
      | (c', None) \<Rightarrow> (commit c', None))"

definition remove_j_spec :: "JointCore \<Rightarrow> real list \<Rightarrow> JointCore \<times> error option" where
  "remove_j_spec c0 xs =
     (let c = c0\<lparr>count_j := count_j c0 - 1\<rparr> in
      if count_j c > 0 then
        (let cnt = real_of_int (count_j c) in
         if length (means c) < length xs then (c, Some Panic)
         else
           (case remove_means cnt xs (means c) of
              (delta, ms) \<Rightarrow> remove_sums_spec cnt delta (c\<lparr>means := ms\<rparr>)))
      else
        (c\<lparr>means := map (\<lambda>_. 0) (means c),
           sums_j := map_option (\<lambda>_. 0) \<circ> sums_j c,
           newSums := map_option (\<lambda>_. 0) \<circ> newSums c\<rparr>, None))"

text \<open>A joint engine of one variable tracking the third centralized sum, with window 3.\<close>

definition cube_config :: JointConfig where
  "cube_config = \<lparr>Sums_j = [ [3]], Window_j = Some 3, Decay_j = None, Vars = None\<rparr>"

definition cube_init :: "Tuple \<rightharpoonup> real" where
  "cube_init = [ [0] \<mapsto> 0, [1] \<mapsto> 0, [2] \<mapsto> 0, [3] \<mapsto> 0]"

definition cube_new :: JointCore where
  "cube_new = \<lparr>means = [0], tuples = [ [3]], sums_j = cube_init, newSums = cube_init,
                count_j = 0, window_j = 3, decay_j = None, queue_j = NewRingBuffer 3\<rparr>"

definition cube_sums :: "Tuple \<rightharpoonup> real" where
  "cube_sums = [ [0] \<mapsto> 0, [1] \<mapsto> 0, [2] \<mapsto> 14 / 3, [3] \<mapsto> 20 / 9]"

definition cube_pushed :: JointCore where
  "cube_pushed = \<lparr>means = [7 / 3], tuples = [ [3]], sums_j = cube_sums, newSums = cube_sums,
                   count_j = 3, window_j = 3, decay_j = None,
                   queue_j = \<lparr>cap = 3, items = [ [1], [2], [4]]\<rparr>\<rparr>"

text \<open>
  A joint engine of one variable with the two target tuples 2 and 3, which share the
  tuple 2, with window 3: new and after 1, 2, 4.
\<close>

definition overlap_config :: JointConfig where
  "overlap_config = \<lparr>Sums_j = [ [2], [3]], Window_j = Some 3, Decay_j = None, Vars = None\<rparr>"

definition overlap_new :: JointCore where
  "overlap_new = \<lparr>means = [0], tuples = [ [2], [3]], sums_j = cube_init, newSums = cube_init,
                   count_j = 0, window_j = 3, decay_j = None, queue_j = NewRingBuffer 3\<rparr>"

definition overlap_pushed :: JointCore where
  "overlap_pushed = \<lparr>means = [7 / 3], tuples = [ [2], [3]], sums_j = cube_sums,
                      newSums = cube_sums, count_j = 3, window_j = 3, decay_j = None,
                      queue_j = \<lparr>cap = 3, items = [ [1], [2], [4]]\<rparr>\<rparr>"

text \<open>The componentwise order \<open>0 \<le> b \<le> a\<close> on tuples of one length.\<close>

abbreviation below :: "Tuple \<Rightarrow> Tuple \<Rightarrow> bool" where
  "below b a \<equiv> list_all2 (\<lambda>x y. 0 \<le> x \<and> x \<le> y) b a"

text \<open>
  One pass of \<^verbatim>\<open>remove\<close> over the tuples below a target tuple, on the scratch accumulators
  \<open>N\<close> with the committed sums \<open>S\<close>: each tuple in turn gets its new value, computed from
  the scratch accumulators as the tuples before it have left them. The pass for one target
  tuple followed by the commit.
\<close>

definition remove_pass ::
  "real \<Rightarrow> real list \<Rightarrow> (Tuple \<rightharpoonup> real) \<Rightarrow> Tuple list \<Rightarrow> (Tuple \<rightharpoonup> real) \<Rightarrow> (Tuple \<rightharpoonup> real)" where
  "remove_pass cnt delta S as N = fold (\<lambda>a N. N(a \<mapsto> remove_value cnt delta S N a)) as N"

definition remove_target :: "real \<Rightarrow> real list \<Rightarrow> Tuple \<Rightarrow> JointCore \<Rightarrow> JointCore" where
  "remove_target cnt delta t s =
     commit (s\<lparr>newSums := remove_pass cnt delta (sums_j s) (iter_order t False) (newSums s)\<rparr>)"

text \<open>
  The target tuples of an engine are separated when no tuple of order 2 or more lies below
  two of them (two occurrences of one target tuple count as two).
\<close>

fun separated :: "Tuple list \<Rightarrow> bool" where
  "separated [] = True"
| "separated (t # ts) =
     ((\<forall>u\<in>set ts. \<forall>a\<in>set (tuples_upto t). a \<in> set (tuples_upto u) \<longrightarrow> abs_T a \<le> 1) \<and>
      separated ts)"

text \<open>
  A joint engine of one variable with the two target tuples 1 and 3, which share the
  tuples 0 and 1 only, with window 3: new and after 1, 2, 4.
\<close>

definition pair_config :: JointConfig where
  "pair_config = \<lparr>Sums_j = [ [1], [3]], Window_j = Some 3, Decay_j = None, Vars = None\<rparr>"

definition pair_new :: JointCore where
  "pair_new = \<lparr>means = [0], tuples = [ [1], [3]], sums_j = cube_init, newSums = cube_init,
                count_j = 0, window_j = 3, decay_j = None, queue_j = NewRingBuffer 3\<rparr>"

definition pair_pushed :: JointCore where
  "pair_pushed = \<lparr>means = [7 / 3], tuples = [ [1], [3]], sums_j = cube_sums,
                   newSums = cube_sums, count_j = 3, window_j = 3, decay_j = None,
                   queue_j = \<lparr>cap = 3, items = [ [1], [2], [4]]\<rparr>\<rparr>"

section \<open>Definitions for the exactness of the undecayed univariate engine\<close>

text \<open>
  The power sum of a list of observations about a point \<open>m\<close>; the value that one pass of
  the outer loop of \<^verbatim>\<open>add\<close> stores at order \<open>k\<close>; the relation between an engine state and
  the observations it aggregates (\<open>exact\<close>, and \<open>tracks\<close> with the window buffer); and the
  contents of the window after one more push and after a sequence of pushes.
\<close>

definition power_sum_about :: "real \<Rightarrow> nat \<Rightarrow> real list \<Rightarrow> real" where
  "power_sum_about m k ys = (\<Sum>y\<leftarrow>ys. (y - m) ^ k)"

definition add_order_value :: "real \<Rightarrow> real \<Rightarrow> nat \<Rightarrow> real list \<Rightarrow> real" where
  "add_order_value cnt delta k s =
     s ! k +
     (cnt - 1) / cnt ^ k * ((cnt - 1) ^ (k - 1) + real_of_int (Sign (int k))) * delta ^ k +
     (\<Sum>i\<leftarrow>[1..<k - 1].
        real_of_int (Binom (int k) (int i) * Sign (int i)) * (delta / cnt) ^ i * s ! (k - i))"

definition exact :: "Core \<Rightarrow> real list \<Rightarrow> bool" where
  "exact c ys \<longleftrightarrow>
     count c = int (length ys) \<and> mean c = spec_mean ys \<and>
     (\<forall>k<length (sums_m c). sums_m c ! k = (if k < 2 then 0 else spec_central_sum k ys))"

definition next_window :: "int \<Rightarrow> real list \<Rightarrow> real \<Rightarrow> real list" where
  "next_window w ys x = (if w \<noteq> 0 \<and> int (length ys) = w then tl ys @ [x] else ys @ [x])"

definition tracks :: "Core \<Rightarrow> real list \<Rightarrow> bool" where
  "tracks c ys \<longleftrightarrow>
     exact c ys \<and> decay c = None \<and> 0 \<le> window c \<and> cap (queue c) = nat (window c) \<and>
     (window c \<noteq> 0 \<longrightarrow> items (queue c) = ys \<and> length ys \<le> nat (window c))"

definition last_window :: "int \<Rightarrow> real list \<Rightarrow> real list" where
  "last_window w xs = (if w = 0 then xs else drop (length xs - nat w) xs)"

section \<open>Definitions for the exactness of the decayed univariate engine\<close>

text \<open>
  The weights of \<open>n\<close> observations in a decayed engine as the spec defines them, in the
  order of the pushes: the most recent observation has the weight \<open>d\<close>, every push multiplies
  the weights of the observations before it by \<open>1 - d\<close>, and the first observation entered
  with the weight 1.
  The weighted mean and the weighted centralized power sum of the observations; the value
  that one pass of the outer loop of \<^verbatim>\<open>addDecay\<close> stores at order \<open>k\<close>; and the relation
  between the state of an unbounded decayed engine and the observations pushed.
\<close>

definition decay_weights :: "real \<Rightarrow> nat \<Rightarrow> real list" where
  "decay_weights d n = map (\<lambda>i. (if i = 0 then 1 else d) * (1 - d) ^ (n - 1 - i)) [0..<n]"









section \<open>The univariate engine: add and remove are inverse, and the invariant\<close>

lemma length_add_inner [simp]: "length (add_inner cnt delta k s) = length s"
proof -
  have "length (fold (\<lambda>i s. s[k := f i s]) js s) = length s" for f :: "nat \<Rightarrow> real list \<Rightarrow> real" and js
    by (induction js arbitrary: s) simp_all
  then show ?thesis unfolding add_inner_def .
qed

lemma length_remove_inner [simp]: "length (remove_inner cnt delta k s) = length s"
proof -
  have "length (fold (\<lambda>i s. s[k := f i s]) js s) = length s" for f :: "nat \<Rightarrow> real list \<Rightarrow> real" and js
    by (induction js arbitrary: s) simp_all
  then show ?thesis unfolding remove_inner_def .
qed

lemma sum_list_update_other:
  fixes g :: "nat \<Rightarrow> real"
  assumes "\<forall>i\<in>set js. 0 < i \<and> i \<le> k" "0 < k"
  shows "(\<Sum>i\<leftarrow>js. g i * s[k := v] ! (k - i)) = (\<Sum>i\<leftarrow>js. g i * s ! (k - i))"
  using assms
proof (induction js)
  case Nil
  then show ?case by simp
next
  case (Cons j js)
  then have "k \<noteq> k - j" by auto
  then have "s[k := v] ! (k - j) = s ! (k - j)" by (rule nth_list_update_neq)
  with Cons show ?case by simp
qed

lemma fold_update_plus:
  fixes g :: "nat \<Rightarrow> real"
  assumes "\<forall>i\<in>set js. 0 < i \<and> i \<le> k" "0 < k"
  shows "fold (\<lambda>i s. s[k := s ! k + g i * s ! (k - i)]) js s =
         s[k := s ! k + (\<Sum>i\<leftarrow>js. g i * s ! (k - i))]"
  using assms
proof (induction js arbitrary: s)
  case Nil
  then show ?case by simp
next
  case (Cons j js)
  then have js: "\<forall>i\<in>set js. 0 < i \<and> i \<le> k" by simp
  show ?case
  proof (cases "k < length s")
    case True
    then show ?thesis
      using Cons.IH [OF js Cons.prems(2)] sum_list_update_other [OF js Cons.prems(2)]
      by (simp add: algebra_simps)
  next
    case False
    then have "s[k := v] = s" for v by (simp add: list_update_beyond)
    then show ?thesis using Cons.IH [OF js Cons.prems(2)] by simp
  qed
qed

lemma fold_update_minus:
  fixes g :: "nat \<Rightarrow> real"
  assumes "\<forall>i\<in>set js. 0 < i \<and> i \<le> k" "0 < k"
  shows "fold (\<lambda>i s. s[k := s ! k - g i * s ! (k - i)]) js s =
         s[k := s ! k - (\<Sum>i\<leftarrow>js. g i * s ! (k - i))]"
  using assms
proof (induction js arbitrary: s)
  case Nil
  then show ?case by simp
next
  case (Cons j js)
  then have js: "\<forall>i\<in>set js. 0 < i \<and> i \<le> k" by simp
  show ?case
  proof (cases "k < length s")
    case True
    then show ?thesis
      using Cons.IH [OF js Cons.prems(2)] sum_list_update_other [OF js Cons.prems(2)]
      by (simp add: algebra_simps)
  next
    case False
    then have "s[k := v] = s" for v by (simp add: list_update_beyond)
    then show ?thesis using Cons.IH [OF js Cons.prems(2)] by simp
  qed
qed

lemma length_add_order [simp]: "length (add_order cnt delta k s) = length s"
  by (simp add: add_order_def)

lemma length_remove_order [simp]: "length (remove_order cnt delta k s) = length s"
  by (simp add: remove_order_def)

lemma length_addDecay_order [simp]: "length (addDecay_order dec delta k s) = length s"
  by (simp add: addDecay_order_def Let_def)

lemma fold_update_inverse:
  fixes g :: "nat \<Rightarrow> real" and A :: real and s :: "real list"
  assumes js: "\<forall>i\<in>set js. 0 < i \<and> i \<le> k" and k: "0 < k"
  defines "t \<equiv> fold (\<lambda>i s. s[k := s ! k + g i * s ! (k - i)]) js (s[k := s ! k + A])"
  shows "fold (\<lambda>i s. s[k := s ! k - g i * s ! (k - i)]) js (t[k := t ! k - A]) = s"
proof (cases "k < length s")
  case True
  have t: "t = s[k := s ! k + A + (\<Sum>i\<leftarrow>js. g i * s ! (k - i))]"
    unfolding t_def fold_update_plus [OF js k] using True
    by (simp add: sum_list_update_other [OF js k])
  show ?thesis
    unfolding fold_update_minus [OF js k] unfolding t using True
    by (simp add: sum_list_update_other [OF js k])
next
  case False
  then have "u[k := v] = u" if "length u = length s" for v and u :: "real list"
    using that by (simp add: list_update_beyond)
  then show ?thesis
    unfolding fold_update_minus [OF js k] t_def fold_update_plus [OF js k] by simp
qed

lemma remove_order_add_order:
  "remove_order (cnt - 1) delta k (add_order cnt delta k s) = s"
proof (cases "k = 0")
  case True
  then show ?thesis
    by (cases s) (simp_all add: remove_order_def add_order_def add_inner_def remove_inner_def)
next
  case False
  then have k: "0 < k" by simp
  have js: "\<forall>i\<in>set [1..<k - 1]. 0 < i \<and> i \<le> k" by auto
  show ?thesis
    unfolding remove_order_def add_order_def add_inner_def remove_inner_def
    by (simp only: diff_add_cancel fold_update_inverse [OF js k])
qed

lemma remove_add_loop:
  "m \<le> length s \<Longrightarrow>
   fold (remove_order (cnt - 1) delta) [2..<m] (fold (add_order cnt delta) (rev [2..<m]) s) = s"
proof (induction m arbitrary: s)
  case 0
  then show ?case by simp
next
  case (Suc m)
  show ?case
  proof (cases "2 \<le> m")
    case True
    then have "[2..<Suc m] = [2..<m] @ [m]" by simp
    then show ?thesis
      using Suc.IH [of "add_order cnt delta m s"] Suc.prems
      by (simp add: remove_order_add_order)
  next
    case False
    then show ?thesis by simp
  qed
qed

lemma fold_update_nth_other:
  fixes f :: "nat \<Rightarrow> real list \<Rightarrow> real"
  shows "j \<noteq> k \<Longrightarrow> fold (\<lambda>i s. s[k := f i s]) js s ! j = s ! j"
  by (induction js arbitrary: s) simp_all

lemma add_order_nth_other: "j \<noteq> k \<Longrightarrow> add_order cnt delta k s ! j = s ! j"
  by (simp add: add_order_def add_inner_def fold_update_nth_other)

lemma remove_order_nth_other: "j \<noteq> k \<Longrightarrow> remove_order cnt delta k s ! j = s ! j"
  by (simp add: remove_order_def remove_inner_def fold_update_nth_other)

lemma addDecay_order_nth_other: "j \<noteq> k \<Longrightarrow> addDecay_order dec delta k s ! j = s ! j"
  by (simp add: addDecay_order_def Let_def)

lemma fold_orders_length:
  assumes "\<And>k s. length (f k s) = length s"
  shows "length (fold f ks s) = length s"
  using assms by (induction ks arbitrary: s) simp_all

lemma fold_orders_nth_other:
  assumes "\<And>k s. j \<noteq> k \<Longrightarrow> f k s ! j = s ! j" and "j \<notin> set ks"
  shows "fold f ks s ! j = s ! j"
  using assms by (induction ks arbitrary: s) auto

lemma length_sums_add [simp]: "length (sums_m (add c x)) = length (sums_m c)"
  by (simp add: add_def Let_def fold_orders_length)

lemma length_sums_addDecay [simp]: "length (sums_m (addDecay c x)) = length (sums_m c)"
  by (simp add: addDecay_def Let_def fold_orders_length)

lemma length_sums_remove [simp]: "length (sums_m (remove c x)) = length (sums_m c)"
  by (simp add: remove_def Let_def fold_orders_length)

lemma add_low_orders: "j < 2 \<Longrightarrow> sums_m (add c x) ! j = sums_m c ! j"
  by (simp add: add_def Let_def fold_orders_nth_other add_order_nth_other)

lemma addDecay_low_orders: "j < 2 \<Longrightarrow> sums_m (addDecay c x) ! j = sums_m c ! j"
  by (simp add: addDecay_def Let_def fold_orders_nth_other addDecay_order_nth_other)

lemma remove_low_orders:
  "j < 2 \<Longrightarrow> 1 < count c \<Longrightarrow> sums_m (remove c x) ! j = sums_m c ! j"
  by (simp add: remove_def Let_def fold_orders_nth_other remove_order_nth_other)

lemma remove_reset:
  "count c \<le> 1 \<Longrightarrow> remove c x = c\<lparr>count := count c - 1, mean := 0, sums_m := map (\<lambda>_. 0) (sums_m c)\<rparr>"
  by (simp add: remove_def Let_def)

lemma add_fields [simp]:
  "count (add c x) = count c + 1" "window (add c x) = window c"
  "decay (add c x) = decay c" "queue (add c x) = queue c"
  by (simp_all add: add_def Let_def)

lemma addDecay_fields [simp]:
  "count (addDecay c x) = count c + 1" "window (addDecay c x) = window c"
  "decay (addDecay c x) = decay c" "queue (addDecay c x) = queue c"
  by (simp_all add: addDecay_def Let_def)

lemma remove_fields [simp]:
  "count (remove c x) = count c - 1" "window (remove c x) = window c"
  "decay (remove c x) = decay c" "queue (remove c x) = queue c"
  by (simp_all add: remove_def Let_def)

lemma core_inv_add: 
  assumes "0 \<le> window c" "cap (queue c) = nat (window c)" "Len (queue c) \<le> nat (window c)"
    "0 \<le> count c" "window c \<noteq> 0 \<longrightarrow> count c + 1 = int (Len (queue c))"
    "\<forall>j<length (sums_m c). j < 2 \<longrightarrow> sums_m c ! j = 0"
  shows "core_inv (add c x)" "core_inv (addDecay c x)"
  using assms by (simp_all add: core_inv_def add_low_orders addDecay_low_orders)

lemma core_inv_remove:
  assumes inv: "core_inv c" and get: "Get (queue c) = Inr (tail, q)" and w: "window c \<noteq> 0"
  shows "core_inv (remove (c\<lparr>queue := q\<rparr>) tail)"
proof -
  from get obtain r where items: "items (queue c) = tail # r" and q: "q = (queue c)\<lparr>items := r\<rparr>"
    by (auto simp: Get_def split: list.splits)
  from inv w have cnt: "count c = int (length r) + 1"
    by (simp add: core_inv_def Len_def items)
  show ?thesis
  proof (cases "count c \<le> 1")
    case True
    with inv cnt w show ?thesis
      by (simp add: remove_reset core_inv_def Len_def items q)
  next
    case False
    with inv cnt w show ?thesis
      by (simp add: core_inv_def Len_def items q remove_low_orders)
  qed
qed

lemma core_inv_NewCore:
  assumes "NewCore config = Inr c"
  shows "core_inv c"
  using assms
  by (auto simp: NewCore_def Let_def core_inv_def validateConfig_def setConfigDefaults_def
      NewRingBuffer_def Len_def uint64_def split: option.splits if_splits)

lemma core_inv_UnsafeClear: "core_inv c \<Longrightarrow> core_inv (UnsafeClear c)"
  by (simp add: core_inv_def UnsafeClear_def Reset_def Len_def)

lemma core_inv_put_add:
  assumes inv: "core_inv c" and w: "window c \<noteq> 0" and len: "Len (queue c) \<noteq> uint64 (window c)"
    and put: "Put (queue c) x = Inr q"
  shows "core_inv (add (c\<lparr>queue := q\<rparr>) x)" "core_inv (addDecay (c\<lparr>queue := q\<rparr>) x)"
proof -
  from put have q: "q = (queue c)\<lparr>items := items (queue c) @ [x]\<rparr>" and "Len (queue c) < cap (queue c)"
    by (auto simp: Put_def Len_def split: if_splits)
  with inv w show "core_inv (add (c\<lparr>queue := q\<rparr>) x)"
    by - (rule core_inv_add(1); simp add: core_inv_def Len_def)
  from q \<open>Len (queue c) < cap (queue c)\<close> inv w show "core_inv (addDecay (c\<lparr>queue := q\<rparr>) x)"
    by - (rule core_inv_add(2); simp add: core_inv_def Len_def)
qed

lemma core_inv_UnsafePush:
  assumes inv: "core_inv c"
  shows "core_inv (fst (UnsafePush c x))"
proof (cases "window c = 0")
  case True
  with inv have "core_inv (add c x)" "core_inv (addDecay c x)"
    by - (rule core_inv_add; simp add: core_inv_def)+
  with True show ?thesis by (simp add: UnsafePush_def)
next
  case w: False
  show ?thesis
  proof (cases "Len (queue c) = uint64 (window c)")
    case full: True
    show ?thesis
    proof (cases "Get (queue c)")
      case (Inl err)
      with w full inv show ?thesis by (simp add: UnsafePush_def)
    next
      case (Inr p)
      then obtain tail q where get: "Get (queue c) = Inr (tail, q)" by (cases p) simp
      let ?c0 = "remove (c\<lparr>queue := q\<rparr>) tail"
      have inv0: "core_inv ?c0" by (rule core_inv_remove [OF inv get w])
      from get full inv have len0: "Len (queue ?c0) \<noteq> uint64 (window ?c0)"
        by (auto simp: Get_def Len_def uint64_def core_inv_def split: list.splits)
      have w0: "window ?c0 \<noteq> 0" using w by simp
      show ?thesis
      proof (cases "Put q x")
        case (Inl err)
        with w full get inv0 show ?thesis by (simp add: UnsafePush_def)
      next
        case (Inr q')
        then have "Put (queue ?c0) x = Inr q'" by simp
        from core_inv_put_add [OF inv0 w0 len0 this]
        show ?thesis using w full get Inr by (simp add: UnsafePush_def)
      qed
    qed
  next
    case notfull: False
    show ?thesis
    proof (cases "Put (queue c) x")
      case (Inl err)
      with w notfull inv show ?thesis by (simp add: UnsafePush_def)
    next
      case (Inr q')
      from core_inv_put_add [OF inv w notfull this]
      show ?thesis using w notfull Inr by (simp add: UnsafePush_def)
    qed
  qed
qed

lemma reachable_core_inv: "reachable config c \<Longrightarrow> core_inv c"
  by (induction rule: reachable.induct)
     (simp_all add: core_inv_NewCore core_inv_UnsafePush core_inv_UnsafeClear)


lemma remove_add_positive:
  assumes "0 < count c"
  shows "remove (add c x) x = c"
proof -
  define n where "n = real_of_int (count c)"
  have n: "n \<noteq> 0" "n + 1 \<noteq> 0" using assms by (simp_all add: n_def)
  have m': "mean (add c x) = mean c + (x - mean c) / (n + 1)"
    by (simp add: add_def Let_def n_def)
  have "(x - mean (add c x)) / n = (x - mean c) / (n + 1)"
    unfolding m' using n by (simp add: divide_simps) (simp add: algebra_simps)
  then have m: "mean (add c x) - (x - mean (add c x)) / n = mean c"
    unfolding m' by simp
  have s: "sums_m (add c x) = fold (add_order (n + 1) (x - mean c)) (rev [2..<length (sums_m c)]) (sums_m c)"
    by (simp add: add_def Let_def n_def)
  have "remove (add c x) x =
    (add c x)\<lparr>count := count c, mean := mean c,
       sums_m := fold (remove_order (n + 1 - 1) (x - mean c)) [2..<length (sums_m c)] (sums_m (add c x))\<rparr>"
    using assms by (simp add: remove_def Let_def m n_def [symmetric])
  also have "fold (remove_order (n + 1 - 1) (x - mean c)) [2..<length (sums_m c)] (sums_m (add c x)) = sums_m c"
    unfolding s by (rule remove_add_loop) simp
  finally show ?thesis by (simp add: add_def Let_def)
qed


section \<open>The joint engine: what each loop preserves, and the invariant\<close>

lemma for_each_invariant:
  assumes "\<And>a s. a \<in> set as \<Longrightarrow> P s \<Longrightarrow> P (fst (cb a s))" and "P s"
  shows "P (fst (for_each cb as s))"
  using assms
proof (induction as arbitrary: s)
  case Nil
  then show ?case by simp
next
  case (Cons a as)
  have step: "P (fst (cb a s))" using Cons.prems by simp
  show ?case
  proof (cases "cb a s")
    case (Pair s' e)
    with step have "P s'" by simp
    then have "P (fst (for_each cb as s'))"
      using Cons.prems(1) by (intro Cons.IH) simp_all
    with Pair \<open>P s'\<close> show ?thesis by (cases e) simp_all
  qed
qed

lemma frame_refl [simp]: "frame c c"
  by (simp add: frame_def)

lemma frame_newSums_add: "frame c s \<Longrightarrow> frame c (newSums_add h v s)"
  by (simp add: frame_def newSums_add_def)

lemma frame_add_term: "frame c s \<Longrightarrow> frame c (fst (add_term cnt delta a b s))"
  by (auto simp: add_term_def Let_def frame_newSums_add split: sum.splits)

lemma frame_addDecay_term: "frame c s \<Longrightarrow> frame c (fst (addDecay_term dec delta a b s))"
  by (auto simp: addDecay_term_def Let_def frame_newSums_add split: sum.splits)

lemma frame_remove_term: "frame c s \<Longrightarrow> frame c (fst (remove_term cnt delta a b s))"
  by (auto simp: remove_term_def Let_def frame_newSums_add split: sum.splits)

lemma frame_reset: "frame c s \<Longrightarrow> frame c (s\<lparr>newSums := N\<rparr>)"
  by (simp add: frame_def)

lemma frame_add_tuple: "frame c s \<Longrightarrow> frame c (fst (add_tuple cnt delta a s))"
  unfolding add_tuple_def iter_def
  by (rule for_each_invariant) (simp_all add: frame_add_term frame_reset)

lemma frame_addDecay_tuple: "frame c s \<Longrightarrow> frame c (fst (addDecay_tuple dec delta a s))"
  unfolding addDecay_tuple_def iter_def
  by (rule for_each_invariant) (simp_all add: frame_addDecay_term frame_reset)

lemma frame_remove_tuple: "frame c s \<Longrightarrow> frame c (fst (remove_tuple cnt delta a s))"
  unfolding remove_tuple_def iter_def
  by (rule for_each_invariant) (simp_all add: frame_remove_term frame_reset)

lemma fst_wrap_err [simp]: "fst (wrap_err msg r) = fst r"
  by (simp add: wrap_err_def split: prod.splits option.splits)

lemma snd_wrap_err_None [simp]: "snd (wrap_err msg r) = None \<longleftrightarrow> snd r = None"
  by (simp add: wrap_err_def split: prod.splits option.splits)

lemma frame_sums_iter:
  assumes "\<forall>a s. frame s (fst (cb a s))" "frame_sums c s"
  shows "frame_sums c (fst (iter t r cb s))"
  unfolding iter_def
proof (rule for_each_invariant)
  show "frame_sums c s" by fact
  show "frame_sums c (fst (cb a s))" if "frame_sums c s" for a s
    using assms(1) that by (simp add: frame_sums_def frame_def)
qed

lemma frame_sums_commit: "frame_sums c s \<Longrightarrow> frame_sums c (commit s)"
  by (simp add: frame_sums_def commit_def)

lemma frame_sums_targets:
  assumes "\<forall>a s. frame s (fst (cb a s))" "frame_sums c s"
  shows "frame_sums c (fst (for_each (\<lambda>tuple c. wrap_err msg (iter tuple r cb c)) ts s))"
  by (rule for_each_invariant) (simp_all add: frame_sums_iter assms)

lemma frame_sums_targets_commit:
  assumes "\<forall>a s. frame s (fst (cb a s))" "frame_sums c s"
  shows "frame_sums c (fst (for_each (\<lambda>tuple c. case wrap_err msg (iter tuple r cb c) of
            (c', Some err) \<Rightarrow> (c', Some err) | (c', None) \<Rightarrow> (commit c', None)) ts s))"
proof (rule for_each_invariant)
  show "frame_sums c s" by fact
  fix a s assume "frame_sums c s"
  from frame_sums_iter [OF assms(1) this]
  have "frame_sums c (fst (iter a r cb s))" .
  then show "frame_sums c (fst (case wrap_err msg (iter a r cb s) of
            (c', Some err) \<Rightarrow> (c', Some err) | (c', None) \<Rightarrow> (commit c', None)))"
    by (cases "iter a r cb s") (auto split: option.splits simp: frame_sums_commit wrap_err_def)
qed

lemma fst_case_commit:
  "P (fst r) \<Longrightarrow> (\<And>s. P s \<Longrightarrow> P (commit s)) \<Longrightarrow>
   P (fst (case r of (c', Some err) \<Rightarrow> (c', Some err) | (c', None) \<Rightarrow> (commit c', None)))"
  by (cases r) (auto split: option.splits)

lemma frame_sums_add_sums: "frame_sums c (fst (add_sums cnt delta c))"
  unfolding add_sums_def
  by (rule fst_case_commit, rule frame_sums_targets [where cb = "add_tuple cnt delta"])
     (simp_all add: frame_add_tuple frame_sums_def commit_def)

lemma frame_sums_addDecay_sums: "frame_sums c (fst (addDecay_sums dec delta c))"
  unfolding addDecay_sums_def
  by (rule fst_case_commit, rule frame_sums_targets [where cb = "addDecay_tuple dec delta"])
     (simp_all add: frame_addDecay_tuple frame_sums_def commit_def)

lemma frame_sums_remove_sums: "frame_sums c (fst (remove_sums cnt delta c))"
  unfolding remove_sums_def
  by (rule frame_sums_targets_commit [where cb = "remove_tuple cnt delta"])
     (simp_all add: frame_remove_tuple frame_sums_def)

lemma add_j_fields [simp]:
  "count_j (fst (add_j c xs)) = count_j c + 1"
  "window_j (fst (add_j c xs)) = window_j c"
  "queue_j (fst (add_j c xs)) = queue_j c"
  "decay_j (fst (add_j c xs)) = decay_j c"
  "tuples (fst (add_j c xs)) = tuples c"
  using frame_sums_add_sums [of "c\<lparr>count_j := count_j c + 1, means := ms\<rparr>" for ms]
  by (auto simp: add_j_def Let_def frame_sums_def split: prod.splits)

lemma addDecay_j_fields [simp]:
  "count_j (fst (addDecay_j c xs)) = count_j c + 1"
  "window_j (fst (addDecay_j c xs)) = window_j c"
  "queue_j (fst (addDecay_j c xs)) = queue_j c"
  "decay_j (fst (addDecay_j c xs)) = decay_j c"
  "tuples (fst (addDecay_j c xs)) = tuples c"
  using frame_sums_addDecay_sums [of "c\<lparr>count_j := count_j c + 1, means := ms\<rparr>" for ms]
  by (auto simp: addDecay_j_def Let_def frame_sums_def split: prod.splits)

lemma remove_j_fields [simp]:
  "count_j (fst (remove_j c xs)) = count_j c - 1"
  "window_j (fst (remove_j c xs)) = window_j c"
  "queue_j (fst (remove_j c xs)) = queue_j c"
  "decay_j (fst (remove_j c xs)) = decay_j c"
  "tuples (fst (remove_j c xs)) = tuples c"
  using frame_sums_remove_sums [of "c\<lparr>count_j := count_j c - 1, means := ms\<rparr>" for ms]
  by (auto simp: remove_j_def Let_def frame_sums_def split: prod.splits)

lemma remove_j_reset:
  "count_j c \<le> 1 \<Longrightarrow>
   remove_j c xs = (c\<lparr>count_j := count_j c - 1, means := map (\<lambda>_. 0) (means c),
           sums_j := map_option (\<lambda>_. 0) \<circ> sums_j c,
           newSums := map_option (\<lambda>_. 0) \<circ> newSums c\<rparr>, None)"
  by (simp add: remove_j_def Let_def)

lemma wrap_err_simps [simp]:
  "wrap_err msg (s, None) = (s, None)"
  "wrap_err msg (s, Some e) = (s, Some (Wrap msg e))"
  by (simp_all add: wrap_err_def)

lemma fold_invariant:
  assumes "\<And>a s. a \<in> set as \<Longrightarrow> P s \<Longrightarrow> P (f a s)" and "P s"
  shows "P (fold f as s)"
  using assms by (induction as arbitrary: s) simp_all

lemma init_sums_zero:
  fixes ts :: "Tuple list" and v :: real
  assumes "fold (\<lambda>tuple m. fst (iter tuple False (\<lambda>xs m. (m(hash xs \<mapsto> 0), None)) m)) ts Map.empty h = Some v"
  shows "v = 0"
proof -
  let ?P = "\<lambda>m :: Tuple \<rightharpoonup> real. \<forall>h v. m h = Some v \<longrightarrow> v = 0"
  have "?P (fold (\<lambda>tuple m. fst (iter tuple False (\<lambda>xs m. (m(hash xs \<mapsto> 0), None)) m)) ts Map.empty)"
    unfolding iter_def
    by (rule fold_invariant [where P = ?P], rule for_each_invariant [where P = ?P])
       (auto split: if_splits)
  with assms show ?thesis by blast
qed

lemma jinv_NewCore_j:
  assumes "NewCore_j config = Inr c"
  shows "jinv c"
  using assms
  by (auto simp: NewCore_j_def Let_def jinv_def validateConfig_j_def setConfigDefaults_j_def
      NewRingBuffer_def Len_def uint64_def dest: init_sums_zero split: option.splits if_splits)

lemma jinv_UnsafeClear_j: "jinv c \<Longrightarrow> jinv (UnsafeClear_j c)"
  by (auto simp: jinv_def UnsafeClear_j_def NewRingBuffer_def Len_def uint64_def)

lemma jinv_after_add:
  assumes "0 \<le> window_j c" "cap (queue_j c) = nat (window_j c)" "Len (queue_j c) \<le> nat (window_j c)"
    "0 \<le> count_j c" "window_j c \<noteq> 0 \<longrightarrow> count_j c + 1 = int (Len (queue_j c))"
  shows "jinv (fst (add_j c xs))" "jinv (fst (addDecay_j c xs))"
  using assms by (simp_all add: jinv_def)

lemma jinv_remove_j:
  assumes inv: "jinv c" and get: "Get (queue_j c) = Inr (tail, q)" and w: "window_j c \<noteq> 0"
  shows "jinv (fst (remove_j (c\<lparr>queue_j := q\<rparr>) tail))"
proof -
  from get obtain r where items: "items (queue_j c) = tail # r" and q: "q = (queue_j c)\<lparr>items := r\<rparr>"
    by (auto simp: Get_def split: list.splits)
  from inv w have cnt: "count_j c = int (length r) + 1"
    by (simp add: jinv_def Len_def items)
  show ?thesis
  proof (cases "count_j c \<le> 1")
    case True
    with inv cnt w show ?thesis
      by (simp add: remove_j_reset jinv_def Len_def items q)
  next
    case False
    with inv cnt w show ?thesis
      by (simp add: jinv_def Len_def items q)
  qed
qed

lemma jinv_put_add:
  assumes inv: "jinv c" and w: "window_j c \<noteq> 0" and len: "Len (queue_j c) \<noteq> uint64 (window_j c)"
    and put: "Put (queue_j c) x = Inr q"
  shows "jinv (fst (add_j (c\<lparr>queue_j := q\<rparr>) xs))" "jinv (fst (addDecay_j (c\<lparr>queue_j := q\<rparr>) xs))"
proof -
  from put have q: "q = (queue_j c)\<lparr>items := items (queue_j c) @ [x]\<rparr>"
    and lt: "Len (queue_j c) < cap (queue_j c)"
    by (auto simp: Put_def Len_def split: if_splits)
  from q lt inv w show "jinv (fst (add_j (c\<lparr>queue_j := q\<rparr>) xs))"
    by - (rule jinv_after_add(1); simp add: jinv_def Len_def)
  from q lt inv w show "jinv (fst (addDecay_j (c\<lparr>queue_j := q\<rparr>) xs))"
    by - (rule jinv_after_add(2); simp add: jinv_def Len_def)
qed

lemma jinv_UnsafePush_j:
  assumes inv: "jinv c"
  shows "jinv (fst (UnsafePush_j c xs))"
proof (cases "length xs \<noteq> length (means c)")
  case True
  with inv show ?thesis by (simp add: UnsafePush_j_def)
next
  case arity: False
  show ?thesis
  proof (cases "window_j c = 0")
    case True
    with inv have "jinv (fst (add_j c xs))" "jinv (fst (addDecay_j c xs))"
      by - (rule jinv_after_add; simp add: jinv_def)+
    with True arity show ?thesis by (simp add: UnsafePush_j_def)
  next
    case w: False
    show ?thesis
    proof (cases "Len (queue_j c) = uint64 (window_j c)")
      case full: True
      show ?thesis
      proof (cases "Get (queue_j c)")
        case (Inl err)
        with w full inv arity show ?thesis by (simp add: UnsafePush_j_def)
      next
        case (Inr p)
        then obtain tail q where get: "Get (queue_j c) = Inr (tail, q)" by (cases p) simp
        obtain c0 e0 where rem: "remove_j (c\<lparr>queue_j := q\<rparr>) tail = (c0, e0)"
          by (cases "remove_j (c\<lparr>queue_j := q\<rparr>) tail")
        have inv0: "jinv c0" using jinv_remove_j [OF inv get w] rem by simp
        have c0: "window_j c0 = window_j c" "queue_j c0 = q"
          using remove_j_fields(2,3) [of "c\<lparr>queue_j := q\<rparr>" tail] rem by simp_all
        from get full inv have len0: "Len (queue_j c0) \<noteq> uint64 (window_j c0)"
          by (auto simp: c0 Get_def Len_def uint64_def jinv_def split: list.splits)
        have w0: "window_j c0 \<noteq> 0" using w c0 by simp
        show ?thesis
        proof (cases e0)
          case (Some err)
          with w full get inv0 arity rem show ?thesis by (simp add: UnsafePush_j_def)
        next
          case None
          show ?thesis
          proof (cases "Put q xs")
            case (Inl err)
            with w full get inv0 arity rem None c0 show ?thesis
              by (simp add: UnsafePush_j_def)
          next
            case (Inr q')
            then have "Put (queue_j c0) xs = Inr q'" by (simp add: c0)
            from jinv_put_add [OF inv0 w0 len0 this]
            show ?thesis using w full get Inr arity rem None c0
              by (simp add: UnsafePush_j_def)
          qed
        qed
      qed
    next
      case notfull: False
      show ?thesis
      proof (cases "Put (queue_j c) xs")
        case (Inl err)
        with w notfull inv arity show ?thesis by (simp add: UnsafePush_j_def)
      next
        case (Inr q')
        from jinv_put_add [OF inv w notfull this]
        show ?thesis using w notfull Inr arity by (simp add: UnsafePush_j_def)
      qed
    qed
  qed
qed

lemma reachable_j_jinv: "reachable_j config c \<Longrightarrow> jinv c"
  by (induction rule: reachable_j.induct)
     (simp_all add: jinv_NewCore_j jinv_UnsafePush_j jinv_UnsafeClear_j)

section \<open>The first push into a decayed engine\<close>

lemma addDecay_means_loop:
  assumes "n \<le> length ms" "length d0 = length ms"
  shows "fold (\<lambda>i (delta, ms).
             (delta[i := xs ! i - ms ! i], ms[i := ms ! i + dec * (xs ! i - ms ! i)]))
          [0..<n] (d0, ms) =
         (map (\<lambda>i. if i < n then xs ! i - ms ! i else d0 ! i) [0..<length ms],
          map (\<lambda>i. if i < n then ms ! i + dec * (xs ! i - ms ! i) else ms ! i) [0..<length ms])"
  using assms
proof (induction n)
  case 0
  then show ?case by (simp add: map_nth) (metis map_nth)
next
  case (Suc n)
  then show ?case
    by (auto simp: nth_list_update intro!: nth_equalityI)
qed

lemma addDecay_means_first:
  assumes "length xs = length ms" "\<forall>m\<in>set ms. m = 0"
  shows "snd (addDecay_means 1 xs ms) = xs"
  using assms unfolding addDecay_means_def
  by (subst addDecay_means_loop) (auto intro!: nth_equalityI)

lemma means_addDecay_sums [simp]: "means (fst (addDecay_sums dec delta c)) = means c"
  using frame_sums_addDecay_sums [of c dec delta] by (simp add: frame_sums_def)

lemma addDecay_j_first:
  assumes "count_j c = 0" "length xs = length (means c)" "\<forall>m\<in>set (means c). m = 0"
  shows "means (fst (addDecay_j c xs)) = xs"
proof -
  obtain delta ms where am: "addDecay_means 1 xs (means c) = (delta, ms)"
    by (cases "addDecay_means 1 xs (means c)")
  with addDecay_means_first [OF assms(2,3)] have "ms = xs" by simp
  with am assms show ?thesis by (simp add: addDecay_j_def Let_def)
qed

lemma addDecay_first:
  assumes "count c = 0" "mean c = 0"
  shows "mean (addDecay c x) = x"
  using assms by (simp add: addDecay_def Let_def)

lemma UnsafePush_first_decayed:
  assumes inv: "core_inv c" and "count c = 0" "decay c = Some d"
  shows "UnsafePush c x = (addDecay (c\<lparr>queue := if window c \<noteq> 0 then (queue c)\<lparr>items := [x]\<rparr> else queue c\<rparr>) x, None)"
  using assms
  by (auto simp: UnsafePush_def core_inv_def Len_def uint64_def Put_def Let_def)

lemma UnsafePush_j_first_decayed:
  assumes inv: "jinv c" and "count_j c = 0" "decay_j c = Some d" "length xs = length (means c)"
  shows "UnsafePush_j c xs = wrap_err ''error adding to sums''
     (addDecay_j (c\<lparr>queue_j := if window_j c \<noteq> 0 then (queue_j c)\<lparr>items := [xs]\<rparr> else queue_j c\<rparr>) xs)"
  using assms
  by (auto simp: UnsafePush_j_def jinv_def Len_def uint64_def Put_def Let_def)

section \<open>The joint engine: the accumulator updates in closed form\<close>

lemma tuples_upto_iff:
  "b \<in> set (tuples_upto a) \<longleftrightarrow> list_all2 (\<lambda>x y. 0 \<le> x \<and> x \<le> y) b a"
proof (induction a arbitrary: b)
  case Nil
  then show ?case by simp
next
  case (Cons n ns)
  show ?case
  proof
    assume "b \<in> set (tuples_upto (n # ns))"
    then show "list_all2 (\<lambda>x y. 0 \<le> x \<and> x \<le> y) b (n # ns)"
      using Cons.IH by (auto simp: list_all2_Cons2)
  next
    assume "list_all2 (\<lambda>x y. 0 \<le> x \<and> x \<le> y) b (n # ns)"
    then obtain z zs where b: "b = z # zs" "0 \<le> z" "z \<le> n"
      and zs: "list_all2 (\<lambda>x y. 0 \<le> x \<and> x \<le> y) zs ns"
      by (auto simp: list_all2_Cons2)
    from zs have "zs \<in> set (tuples_upto ns)" by (simp add: Cons.IH)
    with b show "b \<in> set (tuples_upto (n # ns))" by auto
  qed
qed

lemma set_iter_order [simp]: "set (iter_order a r) = set (tuples_upto a)"
  by (simp add: iter_order_def Let_def)

lemma below_length: "list_all2 (\<lambda>x y. 0 \<le> x \<and> x \<le> y) b a \<Longrightarrow> length b = length a"
  by (rule list_all2_lengthD)

lemma below_wf_tuple:
  "list_all2 (\<lambda>x y. 0 \<le> x \<and> x \<le> y) b a \<Longrightarrow> wf_tuple (length a) b"
  by (auto simp: wf_tuple_def list_all2_conv_all_nth list_all_length)

lemma below_sub:
  assumes "list_all2 (\<lambda>x y. (0::int) \<le> x \<and> x \<le> y) b a"
  shows "sub a b = Inr (map2 (-) a b)"
proof -
  have len: "length a = length b" using assms by (simp add: list_all2_lengthD)
  have "\<not> d < 0" if "d \<in> set (map2 (-) a b)" for d
  proof -
    from that obtain i where "i < length (map2 (-) a b)" "d = map2 (-) a b ! i"
      by (auto simp: in_set_conv_nth)
    with assms len show ?thesis by (auto simp: list_all2_conv_all_nth not_less)
  qed
  then have "\<not> list_ex (\<lambda>d. d < 0) (map2 (-) a b)" by (auto simp: list_ex_iff)
  with len show ?thesis by (simp add: sub_def)
qed

lemma below_sub_neq:
  assumes "list_all2 (\<lambda>x y. (0::int) \<le> x \<and> x \<le> y) b a" "abs_T b \<noteq> 0"
  shows "map2 (-) a b \<noteq> a"
proof
  assume eq: "map2 (-) a b = a"
  have len: "length a = length b" using assms by (simp add: list_all2_lengthD)
  have "b ! i = 0" if "i < length b" for i
  proof -
    from eq have "map2 (-) a b ! i = a ! i" by simp
    with that len show ?thesis by simp
  qed
  then have "\<forall>x\<in>set b. x = 0" by (auto simp: in_set_conv_nth)
  then have "sum_list b = 0" by (induction b) simp_all
  with assms(2) show False by (simp add: abs_T_def)
qed

lemma add_term_closed:
  assumes "below b a" "length delta = length a"
  shows "add_term cnt delta a b s =
         (newSums_add (hash a) (add_contrib cnt delta (sums_j s) a b) s, None)"
proof -
  have len: "length b = length a" using assms(1) by (rule list_all2_lengthD)
  then have p: "pow delta b = Inr (pow_value delta b)"
    using assms(2) by (simp add: pow_def pow_value_def)
  have m: "multinom a b = Inr (prod_list (map2 Binom a b))"
    using len by (simp add: multinom_def)
  show ?thesis
    by (simp add: add_term_def add_contrib_def p m below_sub [OF assms(1)] Let_def hash_def eq_def)
qed

lemma addDecay_term_closed:
  assumes "below b a" "length delta = length a"
  shows "addDecay_term dec delta a b s =
         (newSums_add (hash a) (addDecay_contrib dec delta (sums_j s) a b) s, None)"
proof -
  have len: "length b = length a" using assms(1) by (rule list_all2_lengthD)
  then have p: "pow delta b = Inr (pow_value delta b)"
    using assms(2) by (simp add: pow_def pow_value_def)
  have m: "multinom a b = Inr (prod_list (map2 Binom a b))"
    using len by (simp add: multinom_def)
  show ?thesis
    by (simp add: addDecay_term_def addDecay_contrib_def p m below_sub [OF assms(1)] Let_def
        hash_def eq_def)
qed

lemma remove_term_closed:
  assumes "below b a" "length delta = length a"
    and N: "\<forall>h. h \<noteq> a \<longrightarrow> newSums s h = N h"
  shows "remove_term cnt delta a b s =
         (newSums_add (hash a) (remove_contrib cnt delta (sums_j s) N a b) s, None)"
proof -
  have len: "length b = length a" using assms(1) by (rule list_all2_lengthD)
  then have p: "pow delta b = Inr (pow_value delta b)"
    using assms(2) by (simp add: pow_def pow_value_def)
  have m: "multinom a b = Inr (prod_list (map2 Binom a b))"
    using len by (simp add: multinom_def)
  have "get0 (newSums s) (map2 (-) a b) = get0 N (map2 (-) a b)" if "abs_T b \<noteq> 0"
    using below_sub_neq [OF assms(1) that] N by (simp add: get0_def)
  then show ?thesis
    by (simp add: remove_term_def remove_contrib_def p m below_sub [OF assms(1)] Let_def
        hash_def eq_def)
qed

lemma for_each_accumulate:
  assumes step: "\<And>b s. b \<in> set bs \<Longrightarrow> I s \<Longrightarrow> cb b s = (newSums_add h (f b) s, None)"
    and pres: "\<And>s v. I s \<Longrightarrow> I (newSums_add h v s)"
    and "I s0" "newSums s0 h = Some v0"
  shows "for_each cb bs s0 = (s0\<lparr>newSums := (newSums s0)(h \<mapsto> v0 + sum_list (map f bs))\<rparr>, None)"
  using assms
proof (induction bs arbitrary: s0 v0)
  case Nil
  then have "(newSums s0)(h \<mapsto> v0) = newSums s0" by (simp add: map_upd_triv)
  then show ?case by simp
next
  case (Cons b bs)
  let ?s1 = "newSums_add h (f b) s0"
  have cb: "cb b s0 = (?s1, None)" using Cons.prems by simp
  have n1: "newSums ?s1 h = Some (v0 + f b)"
    using Cons.prems(4) by (simp add: newSums_add_def get0_def)
  have "for_each cb bs ?s1 = (?s1\<lparr>newSums := (newSums ?s1)(h \<mapsto> v0 + f b + sum_list (map f bs))\<rparr>, None)"
    using Cons.prems by (intro Cons.IH n1) simp_all
  moreover have "?s1\<lparr>newSums := (newSums ?s1)(h \<mapsto> v)\<rparr> = s0\<lparr>newSums := (newSums s0)(h \<mapsto> v)\<rparr>" for v
    by (simp add: newSums_add_def)
  ultimately show ?case using cb by (simp add: add.assoc fun_upd_def)
qed

lemma sums_j_newSums_add [simp]: "sums_j (newSums_add h v s) = sums_j s"
  by (simp add: newSums_add_def)

lemma newSums_newSums_add_other: "h' \<noteq> h \<Longrightarrow> newSums (newSums_add h v s) h' = newSums s h'"
  by (simp add: newSums_add_def)

lemma add_tuple_closed:
  assumes "wf_tuple (length delta) a"
  shows "add_tuple cnt delta a s =
         (s\<lparr>newSums := (newSums s)(hash a \<mapsto> add_value cnt delta (sums_j s) a)\<rparr>, None)"
proof -
  let ?s0 = "s\<lparr>newSums := (newSums s)(hash a \<mapsto> 0)\<rparr>"
  have len: "length delta = length a" using assms by (simp add: wf_tuple_def)
  have "for_each (add_term cnt delta a) (iter_order a False) ?s0 =
        (?s0\<lparr>newSums := (newSums ?s0)(hash a \<mapsto> 0 +
            sum_list (map (add_contrib cnt delta (sums_j s) a) (iter_order a False)))\<rparr>, None)"
  proof (rule for_each_accumulate [where I = "\<lambda>u. sums_j u = sums_j s"])
    fix b and u :: JointCore assume "b \<in> set (iter_order a False)" "sums_j u = sums_j s"
    then show "add_term cnt delta a b u = (newSums_add (hash a) (add_contrib cnt delta (sums_j s) a b) u, None)"
      using add_term_closed [of b a delta cnt u] len by (simp add: tuples_upto_iff)
  qed simp_all
  then show ?thesis by (simp add: add_tuple_def iter_def add_value_def)
qed

lemma addDecay_tuple_closed:
  assumes "wf_tuple (length delta) a"
  shows "addDecay_tuple dec delta a s =
         (s\<lparr>newSums := (newSums s)(hash a \<mapsto> addDecay_value dec delta (sums_j s) a)\<rparr>, None)"
proof -
  let ?s0 = "s\<lparr>newSums := (newSums s)(hash a \<mapsto> 0)\<rparr>"
  have len: "length delta = length a" using assms by (simp add: wf_tuple_def)
  have "for_each (addDecay_term dec delta a) (iter_order a False) ?s0 =
        (?s0\<lparr>newSums := (newSums ?s0)(hash a \<mapsto> 0 +
            sum_list (map (addDecay_contrib dec delta (sums_j s) a) (iter_order a False)))\<rparr>, None)"
  proof (rule for_each_accumulate [where I = "\<lambda>u. sums_j u = sums_j s"])
    fix b and u :: JointCore assume "b \<in> set (iter_order a False)" "sums_j u = sums_j s"
    then show "addDecay_term dec delta a b u = (newSums_add (hash a) (addDecay_contrib dec delta (sums_j s) a b) u, None)"
      using addDecay_term_closed [of b a delta dec u] len by (simp add: tuples_upto_iff)
  qed simp_all
  then show ?thesis by (simp add: addDecay_tuple_def iter_def addDecay_value_def)
qed

lemma remove_tuple_closed:
  assumes "wf_tuple (length delta) a"
  shows "remove_tuple cnt delta a s =
         (s\<lparr>newSums := (newSums s)(hash a \<mapsto> remove_value cnt delta (sums_j s) (newSums s) a)\<rparr>, None)"
proof -
  let ?s0 = "s\<lparr>newSums := (newSums s)(hash a \<mapsto> 0)\<rparr>"
  let ?I = "\<lambda>u. sums_j u = sums_j s \<and> (\<forall>h. h \<noteq> a \<longrightarrow> newSums u h = newSums s h)"
  have len: "length delta = length a" using assms by (simp add: wf_tuple_def)
  have "for_each (remove_term cnt delta a) (iter_order a False) ?s0 =
        (?s0\<lparr>newSums := (newSums ?s0)(hash a \<mapsto> 0 +
            sum_list (map (remove_contrib cnt delta (sums_j s) (newSums s) a) (iter_order a False)))\<rparr>, None)"
  proof (rule for_each_accumulate [where I = ?I])
    fix b and u :: JointCore assume "b \<in> set (iter_order a False)" "?I u"
    then show "remove_term cnt delta a b u = (newSums_add (hash a) (remove_contrib cnt delta (sums_j s) (newSums s) a b) u, None)"
      using remove_term_closed [of b a delta u "newSums s" cnt] len by (simp add: tuples_upto_iff)
  qed (simp_all add: hash_def newSums_newSums_add_other)
  then show ?thesis by (simp add: remove_tuple_def iter_def remove_value_def)
qed

lemma for_each_overwrite:
  fixes cb :: "'a \<Rightarrow> JointCore \<Rightarrow> JointCore \<times> error option"
  assumes "\<And>x s. x \<in> set xs \<Longrightarrow>
     cb x s = (s\<lparr>newSums := (\<lambda>h. if h \<in> K x then Some (V (sums_j s) h) else newSums s h)\<rparr>, None)"
  shows "for_each cb xs s =
     (s\<lparr>newSums := (\<lambda>h. if h \<in> (\<Union>x\<in>set xs. K x) then Some (V (sums_j s) h) else newSums s h)\<rparr>, None)"
  using assms
proof (induction xs arbitrary: s)
  case Nil
  then show ?case by simp
next
  case (Cons x xs)
  let ?s1 = "s\<lparr>newSums := (\<lambda>h. if h \<in> K x then Some (V (sums_j s) h) else newSums s h)\<rparr>"
  have cb: "cb x s = (?s1, None)" using Cons.prems by simp
  have "for_each cb xs ?s1 =
     (?s1\<lparr>newSums := (\<lambda>h. if h \<in> (\<Union>x\<in>set xs. K x) then Some (V (sums_j ?s1) h) else newSums ?s1 h)\<rparr>, None)"
    using Cons.prems by (intro Cons.IH) simp
  also have "?s1\<lparr>newSums := (\<lambda>h. if h \<in> (\<Union>x\<in>set xs. K x) then Some (V (sums_j ?s1) h) else newSums ?s1 h)\<rparr> =
     s\<lparr>newSums := (\<lambda>h. if h \<in> (\<Union>x\<in>set (x # xs). K x) then Some (V (sums_j s) h) else newSums s h)\<rparr>"
    by (auto simp: fun_eq_iff)
  finally show ?case using cb by simp
qed

lemma wf_tuple_below:
  assumes "wf_tuple n t" "a \<in> set (tuples_upto t)"
  shows "wf_tuple n a"
  using assms below_wf_tuple [of a t] by (simp add: tuples_upto_iff wf_tuple_def)

lemma targets_closed:
  fixes cb :: "Tuple \<Rightarrow> JointCore \<Rightarrow> JointCore \<times> error option"
  assumes ts: "list_all (wf_tuple n) ts"
    and cb: "\<And>a v. wf_tuple n a \<Longrightarrow>
               cb a v = (v\<lparr>newSums := (newSums v)(hash a \<mapsto> V (sums_j v) a)\<rparr>, None)"
  shows "for_each (\<lambda>tuple s. wrap_err msg (iter tuple True cb s)) ts s =
     (s\<lparr>newSums := (\<lambda>h. if h \<in> (\<Union>t\<in>set ts. set (tuples_upto t))
                           then Some (V (sums_j s) h) else newSums s h)\<rparr>, None)"
proof (rule for_each_overwrite [where K = "\<lambda>t. set (tuples_upto t)" and V = V])
  fix t and u :: JointCore assume t: "t \<in> set ts"
  then have wf: "wf_tuple n t" using ts by (simp add: list_all_iff)
  have "for_each cb (iter_order t True) u =
     (u\<lparr>newSums := (\<lambda>h. if h \<in> (\<Union>a\<in>set (iter_order t True). {a})
                           then Some (V (sums_j u) h) else newSums u h)\<rparr>, None)"
  proof (rule for_each_overwrite [where K = "\<lambda>a. {a}" and V = V])
    fix a and v :: JointCore assume "a \<in> set (iter_order t True)"
    then have "wf_tuple n a" using wf by (simp add: wf_tuple_below)
    moreover have "(newSums v)(a \<mapsto> V (sums_j v) a) =
      (\<lambda>h. if h \<in> {a} then Some (V (sums_j v) h) else newSums v h)"
      by (auto simp: fun_eq_iff)
    ultimately show "cb a v =
      (v\<lparr>newSums := (\<lambda>h. if h \<in> {a} then Some (V (sums_j v) h) else newSums v h)\<rparr>, None)"
      by (simp only: cb hash_def)
  qed
  then show "wrap_err msg (iter t True cb u) =
     (u\<lparr>newSums := (\<lambda>h. if h \<in> set (tuples_upto t)
                           then Some (V (sums_j u) h) else newSums u h)\<rparr>, None)"
    by (simp add: iter_def)
qed

lemma add_sums_closed:
  assumes "wf_core c" "length delta = length (means c)"
  shows "add_sums cnt delta c =
    (c\<lparr>newSums := (\<lambda>h. if h \<in> tracked c then Some (add_value cnt delta (sums_j c) h)
                           else newSums c h),
       sums_j := sums_j c ++
                 (\<lambda>h. if h \<in> tracked c then Some (add_value cnt delta (sums_j c) h)
                           else newSums c h)\<rparr>, None)"
proof -
  have ts: "list_all (wf_tuple (length delta)) (tuples c)"
    using assms by (simp add: wf_core_def)
  show ?thesis
    unfolding add_sums_def
    by (subst targets_closed [OF ts, where V = "add_value cnt delta"])
       (simp_all add: add_tuple_closed commit_def tracked_def)
qed

lemma addDecay_sums_closed:
  assumes "wf_core c" "length delta = length (means c)"
  shows "addDecay_sums dec delta c =
    (c\<lparr>newSums := (\<lambda>h. if h \<in> tracked c then Some (addDecay_value dec delta (sums_j c) h)
                           else newSums c h),
       sums_j := sums_j c ++
                 (\<lambda>h. if h \<in> tracked c then Some (addDecay_value dec delta (sums_j c) h)
                           else newSums c h)\<rparr>, None)"
proof -
  have ts: "list_all (wf_tuple (length delta)) (tuples c)"
    using assms by (simp add: wf_core_def)
  show ?thesis
    unfolding addDecay_sums_def
    by (subst targets_closed [OF ts, where V = "addDecay_value dec delta"])
       (simp_all add: addDecay_tuple_closed commit_def tracked_def)
qed

lemma means_loop_lengths:
  fixes g :: "nat \<Rightarrow> real list \<Rightarrow> real" and h :: "nat \<Rightarrow> real list \<Rightarrow> real"
  shows "length (fst (fold (\<lambda>i (delta, ms). (delta[i := g i ms], ms[i := h i ms])) js (d0, m0))) = length d0 \<and>
         length (snd (fold (\<lambda>i (delta, ms). (delta[i := g i ms], ms[i := h i ms])) js (d0, m0))) = length m0"
  by (induction js arbitrary: d0 m0) simp_all

lemma add_means_lengths [simp]:
  "length (fst (add_means cnt xs ms)) = length ms"
  "length (snd (add_means cnt xs ms)) = length ms"
  using means_loop_lengths [of "\<lambda>i ms. xs ! i - ms ! i" "\<lambda>i ms. ms ! i + (xs ! i - ms ! i) / cnt"
      "[0..<length xs]" "replicate (length ms) 0" ms]
  by (simp_all add: add_means_def)

lemma addDecay_means_lengths [simp]:
  "length (fst (addDecay_means dec xs ms)) = length ms"
  "length (snd (addDecay_means dec xs ms)) = length ms"
  using means_loop_lengths [of "\<lambda>i ms. xs ! i - ms ! i" "\<lambda>i ms. ms ! i + dec * (xs ! i - ms ! i)"
      "[0..<length xs]" "replicate (length ms) 0" ms]
  by (simp_all add: addDecay_means_def)

lemma add_j_closed:
  assumes "wf_core c" "length xs = length (means c)"
  defines "cnt \<equiv> real_of_int (count_j c + 1)"
  defines "delta \<equiv> fst (add_means cnt xs (means c))"
  shows "snd (add_j c xs) = None"
    and "a \<in> tracked c \<Longrightarrow>
         sums_j (fst (add_j c xs)) (hash a) = Some (add_value cnt delta (sums_j c) a)"
    and "a \<in> tracked c \<Longrightarrow>
         newSums (fst (add_j c xs)) (hash a) = Some (add_value cnt delta (sums_j c) a)"
proof -
  let ?c1 = "c\<lparr>count_j := count_j c + 1, means := snd (add_means cnt xs (means c))\<rparr>"
  have wf: "wf_core ?c1" using assms(1) by (simp add: wf_core_def)
  have len: "length delta = length (means ?c1)" by (simp add: delta_def)
  have eq: "add_j c xs = add_sums cnt delta ?c1"
    using assms(2) by (simp add: add_j_def Let_def cnt_def delta_def split: prod.splits)
  have tr: "tracked ?c1 = tracked c" by (simp add: tracked_def)
  note closed = add_sums_closed [OF wf len, of cnt]
  show "snd (add_j c xs) = None" by (simp add: eq closed)
  show "sums_j (fst (add_j c xs)) (hash a) = Some (add_value cnt delta (sums_j c) a)"
    if "a \<in> tracked c"
    using that by (simp add: eq closed tr hash_def map_add_def)
  show "newSums (fst (add_j c xs)) (hash a) = Some (add_value cnt delta (sums_j c) a)"
    if "a \<in> tracked c"
    using that by (simp add: eq closed tr hash_def)
qed

lemma addDecay_j_closed:
  assumes "wf_core c" "length xs = length (means c)"
  defines "dec \<equiv> (if count_j c = 0 then 1 else case decay_j c of Some d \<Rightarrow> d | None \<Rightarrow> 0)"
  defines "delta \<equiv> fst (addDecay_means dec xs (means c))"
  shows "snd (addDecay_j c xs) = None"
    and "a \<in> tracked c \<Longrightarrow>
         sums_j (fst (addDecay_j c xs)) (hash a) = Some (addDecay_value dec delta (sums_j c) a)"
    and "a \<in> tracked c \<Longrightarrow>
         newSums (fst (addDecay_j c xs)) (hash a) = Some (addDecay_value dec delta (sums_j c) a)"
proof -
  let ?c1 = "c\<lparr>count_j := count_j c + 1, means := snd (addDecay_means dec xs (means c))\<rparr>"
  have wf: "wf_core ?c1" using assms(1) by (simp add: wf_core_def)
  have len: "length delta = length (means ?c1)" by (simp add: delta_def)
  have eq: "addDecay_j c xs = addDecay_sums dec delta ?c1"
    using assms(2) by (simp add: addDecay_j_def Let_def dec_def delta_def split: prod.splits)
  have tr: "tracked ?c1 = tracked c" by (simp add: tracked_def)
  note closed = addDecay_sums_closed [OF wf len, of dec]
  show "snd (addDecay_j c xs) = None" by (simp add: eq closed)
  show "sums_j (fst (addDecay_j c xs)) (hash a) = Some (addDecay_value dec delta (sums_j c) a)"
    if "a \<in> tracked c"
    using that by (simp add: eq closed tr hash_def map_add_def)
  show "newSums (fst (addDecay_j c xs)) (hash a) = Some (addDecay_value dec delta (sums_j c) a)"
    if "a \<in> tracked c"
    using that by (simp add: eq closed tr hash_def)
qed

section \<open>The undecayed univariate engine is exact\<close>

lemma Sign_power: "real_of_int (Sign (int i)) = (- 1) ^ i"
proof (cases "even i")
  case True
  then have "int i mod 2 = 0" by presburger
  with True show ?thesis by (simp add: Sign_def)
next
  case False
  then have "int i mod 2 \<noteq> 0" by presburger
  with False show ?thesis by (simp add: Sign_def)
qed

lemma Binom_choose: "i \<le> k \<Longrightarrow> Binom (int k) (int i) = int (k choose i)"
  by (simp add: Binom_def)

lemma sum_list_sum_swap:
  fixes f :: "nat \<Rightarrow> real \<Rightarrow> real"
  shows "(\<Sum>y\<leftarrow>ys. \<Sum>i\<in>A. f i y) = (\<Sum>i\<in>A. \<Sum>y\<leftarrow>ys. f i y)"
  by (induction ys) (simp_all add: sum.distrib)

lemma shifted_power_sum:
  "power_sum_about (m - e) k ys =
   (\<Sum>i\<le>k. of_nat (k choose i) * e ^ i * power_sum_about m (k - i) ys)"
proof -
  have "(y - (m - e)) ^ k = (\<Sum>i\<le>k. of_nat (k choose i) * e ^ i * (y - m) ^ (k - i))" for y
    using binomial_ring [of e "y - m" k] by (simp add: algebra_simps)
  then have "power_sum_about (m - e) k ys =
    (\<Sum>y\<leftarrow>ys. \<Sum>i\<le>k. of_nat (k choose i) * e ^ i * (y - m) ^ (k - i))"
    by (simp add: power_sum_about_def)
  also have "\<dots> = (\<Sum>i\<le>k. \<Sum>y\<leftarrow>ys. of_nat (k choose i) * e ^ i * (y - m) ^ (k - i))"
    by (rule sum_list_sum_swap)
  also have "\<dots> = (\<Sum>i\<le>k. of_nat (k choose i) * e ^ i * power_sum_about m (k - i) ys)"
    by (simp add: power_sum_about_def sum_list_const_mult)
  finally show ?thesis .
qed

lemma power_sum_about_0: "power_sum_about m 0 ys = real (length ys)"
  by (induction ys) (simp_all add: power_sum_about_def)

lemma sum_list_mean: "sum_list ys = real (length ys) * spec_mean ys"
  by (cases "ys = []") (simp_all add: spec_mean_def)

lemma power_sum_about_1: "power_sum_about (spec_mean ys) 1 ys = 0"
proof -
  have "power_sum_about m 1 ys = sum_list ys - real (length ys) * m" for m
    by (induction ys) (simp_all add: power_sum_about_def algebra_simps)
  then show ?thesis using sum_list_mean [of ys] by simp
qed

lemma spec_central_sum_about: "spec_central_sum k ys = power_sum_about (spec_mean ys) k ys"
  by (simp add: spec_central_sum_def power_sum_about_def)

lemma spec_mean_snoc:
  "spec_mean (ys @ [x]) = spec_mean ys + (x - spec_mean ys) / (real (length ys) + 1)"
proof -
  have "spec_mean (ys @ [x]) = (real (length ys) * spec_mean ys + x) / (real (length ys) + 1)"
    by (simp add: spec_mean_def [of "ys @ [x]"] sum_list_mean [of ys] add.commute)
  also have "\<dots> = spec_mean ys + (x - spec_mean ys) / (real (length ys) + 1)"
    by (simp add: field_simps)
  finally show ?thesis .
qed

lemma add_order_closed:
  assumes "0 < k" "k < length s"
  shows "add_order cnt delta k s = s[k := add_order_value cnt delta k s]"
proof -
  have js: "\<forall>i\<in>set [1..<k - 1]. 0 < i \<and> i \<le> k" by auto
  show ?thesis
    unfolding add_order_def add_inner_def fold_update_plus [OF js assms(1)] add_order_value_def
    by (simp only: sum_list_update_other [OF js assms(1)] nth_list_update_eq [OF assms(2)]
        list_update_overwrite)
qed

lemma add_order_value_cong:
  assumes "\<forall>j\<le>k. u ! j = s ! j"
  shows "add_order_value cnt delta k u = add_order_value cnt delta k s"
proof -
  have "map (\<lambda>i. real_of_int (Binom (int k) (int i) * Sign (int i)) * (delta / cnt) ^ i * u ! (k - i)) [1..<k - 1] =
        map (\<lambda>i. real_of_int (Binom (int k) (int i) * Sign (int i)) * (delta / cnt) ^ i * s ! (k - i)) [1..<k - 1]"
    using assms by (intro map_cong) simp_all
  then show ?thesis using assms by (simp add: add_order_value_def)
qed

lemma add_loop_nth:
  assumes "2 \<le> k" "k < m" "m \<le> length s"
  shows "fold (add_order cnt delta) (rev [2..<m]) s ! k = add_order_value cnt delta k s"
  using assms
proof (induction m arbitrary: s)
  case 0
  then show ?case by simp
next
  case (Suc m)
  let ?u = "add_order cnt delta m s"
  from Suc.prems have m2: "2 \<le> m" and ml: "m < length s" by simp_all
  then have u: "?u = s[m := add_order_value cnt delta m s]"
    by (intro add_order_closed) simp_all
  have fold: "fold (add_order cnt delta) (rev [2..<Suc m]) s = fold (add_order cnt delta) (rev [2..<m]) ?u"
    using m2 by simp
  show ?case
  proof (cases "k = m")
    case True
    have "fold (add_order cnt delta) (rev [2..<m]) ?u ! m = ?u ! m"
      by (rule fold_orders_nth_other) (simp_all add: add_order_nth_other)
    then show ?thesis using True ml m2 by (simp add: fold u)
  next
    case False
    with Suc.prems have km: "k < m" by simp
    have "fold (add_order cnt delta) (rev [2..<m]) ?u ! k = add_order_value cnt delta k ?u"
      using Suc.prems km ml by (intro Suc.IH) simp_all
    also have "\<dots> = add_order_value cnt delta k s"
      using km by (intro add_order_value_cong) (simp add: u)
    finally show ?thesis using m2 by (simp add: fold)
  qed
qed

lemma add_order_value_exact:
  fixes ys :: "real list" and x :: real
  defines "n \<equiv> real (length ys)"
  defines "mu \<equiv> spec_mean ys"
  defines "delta \<equiv> x - mu"
  assumes k: "2 \<le> k"
    and low: "\<forall>j. 2 \<le> j \<and> j \<le> k \<longrightarrow> s ! j = power_sum_about mu j ys"
  shows "add_order_value (n + 1) delta k s =
         power_sum_about (mu + delta / (n + 1)) k (ys @ [x])"
proof -
  define e where "e = - (delta / (n + 1))"
  define p where "p = (\<lambda>j. power_sum_about mu j ys)"
  have n1: "n + 1 \<noteq> 0" using n_def by (simp add: add_nonneg_eq_0_iff)
  obtain m where km: "k = Suc (Suc m)" using k by (metis add_2_eq_Suc le_Suc_ex)
  have mean': "mu + delta / (n + 1) = mu - e" by (simp add: e_def)
  have last: "(x - (mu - e)) ^ k = (n * delta / (n + 1)) ^ k"
  proof -
    have "x - (mu - e) = n * delta / (n + 1)"
      using n1 by (simp add: e_def delta_def field_simps)
    then show ?thesis by simp
  qed
  have "power_sum_about (mu - e) k (ys @ [x]) = power_sum_about (mu - e) k ys + (x - (mu - e)) ^ k"
    by (simp add: power_sum_about_def)
  also have "power_sum_about (mu - e) k ys = (\<Sum>i\<le>k. of_nat (k choose i) * e ^ i * p (k - i))"
    unfolding p_def by (rule shifted_power_sum)
  also have "\<dots> = (\<Sum>i\<le>m. of_nat (k choose i) * e ^ i * p (k - i)) +
      of_nat (k choose Suc m) * e ^ Suc m * p 1 + e ^ k * p 0"
    by (simp add: km)
  also have "p 1 = 0" unfolding p_def mu_def by (rule power_sum_about_1)
  also have "p 0 = n" unfolding p_def n_def by (rule power_sum_about_0)
  also have "(\<Sum>i\<le>m. of_nat (k choose i) * e ^ i * p (k - i)) =
      p k + (\<Sum>i = 1..m. of_nat (k choose i) * e ^ i * p (k - i))"
    by (simp add: atMost_atLeast0 sum.atLeast_Suc_atMost)
  also have "p k = s ! k" using low k by (simp add: p_def)
  also have "(\<Sum>i = 1..m. of_nat (k choose i) * e ^ i * p (k - i)) =
      (\<Sum>i\<leftarrow>[1..<k - 1]. real_of_int (Binom (int k) (int i) * Sign (int i)) * (delta / (n + 1)) ^ i * s ! (k - i))"
  proof -
    have "(\<Sum>i\<leftarrow>[1..<k - 1]. real_of_int (Binom (int k) (int i) * Sign (int i)) * (delta / (n + 1)) ^ i * s ! (k - i)) =
          (\<Sum>i\<in>{1..<k - 1}. real_of_int (Binom (int k) (int i) * Sign (int i)) * (delta / (n + 1)) ^ i * s ! (k - i))"
      by (simp add: interv_sum_list_conv_sum_set_nat)
    also have "\<dots> = (\<Sum>i = 1..m. of_nat (k choose i) * e ^ i * p (k - i))"
    proof (rule sum.cong)
      show "{1..<k - 1} = {1..m}" using km by auto
      fix i assume i: "i \<in> {1..m}"
      then have "2 \<le> k - i" "k - i \<le> k" "i \<le> k" using km by auto
      then have "s ! (k - i) = p (k - i)" using low by (simp add: p_def)
      moreover have "e ^ i = (- 1) ^ i * (delta / (n + 1)) ^ i"
        by (simp add: e_def power_minus [of "delta / (n + 1)"])
      ultimately show "real_of_int (Binom (int k) (int i) * Sign (int i)) * (delta / (n + 1)) ^ i * s ! (k - i) =
        of_nat (k choose i) * e ^ i * p (k - i)"
        using \<open>i \<le> k\<close> by (simp add: Binom_choose Sign_power)
    qed
    finally show ?thesis by simp
  qed
  finally have "power_sum_about (mu - e) k (ys @ [x]) =
      s ! k + (\<Sum>i\<leftarrow>[1..<k - 1]. real_of_int (Binom (int k) (int i) * Sign (int i)) * (delta / (n + 1)) ^ i * s ! (k - i)) +
      e ^ k * n + (n * delta / (n + 1)) ^ k"
    by (simp add: last)
  moreover have "e ^ k * n + (n * delta / (n + 1)) ^ k =
      (n + 1 - 1) / (n + 1) ^ k * ((n + 1 - 1) ^ (k - 1) + real_of_int (Sign (int k))) * delta ^ k"
  proof -
    have "e ^ k = (- 1) ^ k * delta ^ k / (n + 1) ^ k"
      by (simp add: e_def power_minus [of "delta / (n + 1)"] power_divide)
    moreover have "n * n ^ (k - 1) = n ^ k" using k by (cases k) simp_all
    ultimately show ?thesis
      by (simp add: Sign_power power_divide power_mult_distrib field_simps add_divide_distrib)
  qed
  ultimately show ?thesis
    by (simp add: add_order_value_def mean')
qed

lemma add_exact:
  assumes "exact c ys"
  shows "exact (add c x) (ys @ [x])"
proof -
  define n where "n = real (length ys)"
  define delta where "delta = x - spec_mean ys"
  have cnt0: "real_of_int (count c) = n" using assms by (simp add: exact_def n_def)
  then have cnt: "real_of_int (count c + 1) = n + 1" by simp
  have mu: "mean c = spec_mean ys" using assms by (simp add: exact_def)
  have "mean (add c x) = mean c + (x - mean c) / real_of_int (count c + 1)"
    by (simp add: add_def Let_def)
  then have mean': "mean (add c x) = spec_mean (ys @ [x])"
    unfolding cnt mu by (simp only: spec_mean_snoc n_def)
  have mean'': "spec_mean (ys @ [x]) = spec_mean ys + delta / (n + 1)"
    by (simp add: spec_mean_snoc n_def delta_def)
  have "sums_m (add c x) ! k = (if k < 2 then 0 else spec_central_sum k (ys @ [x]))"
    if k: "k < length (sums_m c)" for k
  proof (cases "k < 2")
    case True
    with assms k show ?thesis by (simp add: add_low_orders exact_def)
  next
    case False
    then have k2: "2 \<le> k" by simp
    have low: "\<forall>j. 2 \<le> j \<and> j \<le> k \<longrightarrow> sums_m c ! j = power_sum_about (spec_mean ys) j ys"
      using assms k by (auto simp: exact_def spec_central_sum_about)
    have "sums_m (add c x) ! k = add_order_value (n + 1) delta k (sums_m c)"
      using k k2 by (simp add: add_def Let_def cnt0 mu delta_def add_loop_nth)
    also have "\<dots> = power_sum_about (spec_mean ys + delta / (n + 1)) k (ys @ [x])"
      unfolding n_def delta_def by (rule add_order_value_exact [OF k2 low])
    also have "\<dots> = spec_central_sum k (ys @ [x])"
      by (simp add: spec_central_sum_about mean'')
    finally show ?thesis using False by simp
  qed
  with assms mean' show ?thesis by (simp add: exact_def)
qed

lemma exact_rotate: "exact c (ys @ [x]) \<longleftrightarrow> exact c (x # ys)"
proof -
  have m: "spec_mean (ys @ [x]) = spec_mean (x # ys)" by (simp add: spec_mean_def)
  have "spec_central_sum k (ys @ [x]) = spec_central_sum k (x # ys)" for k
    by (simp add: spec_central_sum_def m)
  with m show ?thesis by (simp add: exact_def)
qed

lemma spec_central_sum_Nil [simp]: "spec_central_sum k [] = 0"
  by (simp add: spec_central_sum_def)

lemma spec_mean_Nil [simp]: "spec_mean [] = 0"
  by (simp add: spec_mean_def)

lemma remove_exact:
  assumes "exact c (x # ys)"
  shows "exact (remove c x) ys"
proof (cases "ys = []")
  case True
  with assms have "count c = 1" by (simp add: exact_def)
  with True show ?thesis by (simp add: remove_reset exact_def)
next
  case False
  define c' where "c' = c\<lparr>count := int (length ys), mean := spec_mean ys,
     sums_m := map (\<lambda>k. if k < 2 then 0 else spec_central_sum k ys) [0..<length (sums_m c)]\<rparr>"
  have ex': "exact c' ys" by (simp add: exact_def c'_def)
  have pos: "0 < count c'" using False by (simp add: c'_def)
  have "exact (add c' x) (x # ys)" using add_exact [OF ex'] by (simp add: exact_rotate)
  then have "count (add c' x) = count c" "mean (add c' x) = mean c"
    "sums_m (add c' x) = sums_m c"
    using assms by (auto simp: exact_def c'_def intro!: nth_equalityI)
  moreover have "window (add c' x) = window c" "decay (add c' x) = decay c"
    "queue (add c' x) = queue c"
    by (simp_all add: c'_def)
  ultimately have "add c' x = c" by (simp add: Core.equality)
  then have "remove c x = c'" using remove_add_positive [OF pos, of x] by simp
  with ex' show ?thesis by simp
qed

lemma tracks_NewCore:
  assumes "NewCore config = Inr c" "Decay config = None"
  shows "tracks c []"
  using assms
  by (auto simp: NewCore_def Let_def tracks_def exact_def validateConfig_def
      setConfigDefaults_def NewRingBuffer_def uint64_def split: option.splits if_splits)

lemma tracks_UnsafePush:
  assumes "tracks c ys"
  shows "\<exists>c'. UnsafePush c x = (c', None) \<and> tracks c' (next_window (window c) ys x) \<and>
           window c' = window c \<and> length (sums_m c') = length (sums_m c)"
proof (cases "window c = 0")
  case True
  with assms add_exact [of c ys x] show ?thesis
    by (simp add: UnsafePush_def tracks_def next_window_def)
next
  case w: False
  from assms w have q: "items (queue c) = ys" "length ys \<le> nat (window c)" "0 \<le> window c"
    "cap (queue c) = nat (window c)" "decay c = None" "exact c ys"
    by (simp_all add: tracks_def)
  show ?thesis
  proof (cases "int (length ys) = window c")
    case full: True
    with w obtain y ys' where ys: "ys = y # ys'" by (cases ys) auto
    let ?q = "(queue c)\<lparr>items := ys'\<rparr>"
    let ?c0 = "remove (c\<lparr>queue := ?q\<rparr>) y"
    have get: "Get (queue c) = Inr (y, ?q)" by (simp add: Get_def q ys)
    have "exact (c\<lparr>queue := ?q\<rparr>) (y # ys')" using q ys by (simp add: exact_def)
    then have ex0: "exact ?c0 ys'" by (rule remove_exact)
    have put: "Put (queue ?c0) x = Inr (?q\<lparr>items := ys' @ [x]\<rparr>)"
      using q ys full by (simp add: Put_def)
    let ?c1 = "?c0\<lparr>queue := ?q\<lparr>items := ys' @ [x]\<rparr>\<rparr>"
    have "exact ?c1 ys'" using ex0 by (simp add: exact_def)
    then have ex: "exact (add ?c1 x) (ys' @ [x])" by (rule add_exact)
    have lw: "length ys = nat (window c)" using full by simp
    have push: "UnsafePush c x = (add ?c1 x, None)"
      using w lw q get put by (simp add: UnsafePush_def Len_def uint64_def)
    have nw: "next_window (window c) ys x = ys' @ [x]"
      using w full ys by (simp add: next_window_def)
    show ?thesis
      unfolding push nw using ex q w full ys by (simp add: tracks_def)
  next
    case notfull: False
    let ?q = "(queue c)\<lparr>items := ys @ [x]\<rparr>"
    have lt: "length ys < nat (window c)" using notfull q by linarith
    have put: "Put (queue c) x = Inr ?q" using q lt by (simp add: Put_def)
    have "exact (c\<lparr>queue := ?q\<rparr>) ys" using q by (simp add: exact_def)
    then have ex: "exact (add (c\<lparr>queue := ?q\<rparr>) x) (ys @ [x])" by (rule add_exact)
    have push: "UnsafePush c x = (add (c\<lparr>queue := ?q\<rparr>) x, None)"
      using w lt q put by (simp add: UnsafePush_def Len_def uint64_def)
    have nw: "next_window (window c) ys x = ys @ [x]"
      using notfull by (simp add: next_window_def)
    show ?thesis
      unfolding push nw using ex q w lt by (simp add: tracks_def)
  qed
qed

lemma tracks_pushAll:
  assumes "tracks c ys"
  shows "\<exists>c'. pushAll c xs = (c', None) \<and> tracks c' (foldl (next_window (window c)) ys xs) \<and>
           window c' = window c \<and> length (sums_m c') = length (sums_m c)"
  using assms
proof (induction xs arbitrary: c ys)
  case Nil
  then show ?case by (simp add: pushAll.simps)
next
  case (Cons x xs)
  from tracks_UnsafePush [OF Cons.prems, of x] obtain c1 where
    c1: "UnsafePush c x = (c1, None)" "tracks c1 (next_window (window c) ys x)"
      "window c1 = window c" "length (sums_m c1) = length (sums_m c)"
    by blast
  from Cons.IH [OF c1(2)] c1 show ?case by (simp add: pushAll.simps)
qed

lemma foldl_next_window:
  assumes "0 \<le> w"
  shows "foldl (next_window w) [] xs = last_window w xs"
proof (induction xs rule: rev_induct)
  case Nil
  then show ?case by (simp add: last_window_def)
next
  case (snoc x xs)
  show ?case
  proof (cases "w = 0")
    case True
    with snoc show ?thesis by (simp add: last_window_def next_window_def)
  next
    case False
    with assms have w: "0 < nat w" by simp
    show ?thesis
    proof (cases "nat w \<le> length xs")
      case True
      then have len: "int (length (drop (length xs - nat w) xs)) = w" using assms by simp
      have tl: "tl (drop (length xs - nat w) xs) = drop (Suc (length xs) - nat w) xs"
        using True w by (simp add: drop_Suc [symmetric] tl_drop Suc_diff_le)
      have "foldl (next_window w) [] (xs @ [x]) = next_window w (drop (length xs - nat w) xs) x"
        using snoc \<open>w \<noteq> 0\<close> by (simp add: last_window_def)
      also have "\<dots> = drop (Suc (length xs) - nat w) xs @ [x]"
        using len \<open>w \<noteq> 0\<close> by (simp only: next_window_def tl) simp
      also have "Suc (length xs) - nat w - length xs = 0" using w by linarith
      then have "drop (Suc (length xs) - nat w) xs @ [x] = drop (Suc (length xs) - nat w) (xs @ [x])"
        by simp
      finally show ?thesis using \<open>w \<noteq> 0\<close> by (simp add: last_window_def)
    next
      case False
      then have "int (length xs) \<noteq> w" "length xs - nat w = 0" "Suc (length xs) - nat w = 0"
        by linarith+
      with snoc \<open>w \<noteq> 0\<close> show ?thesis
        by (simp add: last_window_def next_window_def)
    qed
  qed
qed

section \<open>Well-formedness of the reachable joint cores\<close>

text \<open>
  Every tuple requested in the configuration has as many entries as there are variables
  (\<^verbatim>\<open>validateConfig\<close> rejects the others), and no method changes \<^verbatim>\<open>c.tuples\<close> or the length of
  \<^verbatim>\<open>c.means\<close>. So every core obtained from \<^verbatim>\<open>NewCore\<close> by pushes and clears is well formed.
\<close>

lemma remove_means_lengths [simp]:
  "length (fst (remove_means cnt xs ms)) = length ms"
  "length (snd (remove_means cnt xs ms)) = length ms"
proof -
  have "length (fst (fold (\<lambda>i (delta, ms). (let m = ms ! i - (xs ! i - ms ! i) / cnt in (delta[i := xs ! i - m], ms[i := m]))) js (d0, m0))) = length d0 \<and>
        length (snd (fold (\<lambda>i (delta, ms). (let m = ms ! i - (xs ! i - ms ! i) / cnt in (delta[i := xs ! i - m], ms[i := m]))) js (d0, m0))) = length m0"
    for js and d0 m0 :: "real list"
    by (induction js arbitrary: d0 m0) (simp_all add: Let_def)
  from this [of "[0..<length xs]" "replicate (length ms) 0" ms]
  show "length (fst (remove_means cnt xs ms)) = length ms"
    "length (snd (remove_means cnt xs ms)) = length ms"
    by (simp_all add: remove_means_def)
qed

lemma means_add_sums [simp]: "means (fst (add_sums cnt delta c)) = means c"
  using frame_sums_add_sums [of c cnt delta] by (simp add: frame_sums_def)

lemma means_remove_sums [simp]: "means (fst (remove_sums cnt delta c)) = means c"
  using frame_sums_remove_sums [of c cnt delta] by (simp add: frame_sums_def)

lemma add_means_snd: "add_means cnt xs ms = (d, m) \<Longrightarrow> length m = length ms"
  using add_means_lengths(2) [of cnt xs ms] by simp

lemma addDecay_means_snd: "addDecay_means dec xs ms = (d, m) \<Longrightarrow> length m = length ms"
  using addDecay_means_lengths(2) [of dec xs ms] by simp

lemma remove_means_snd: "remove_means cnt xs ms = (d, m) \<Longrightarrow> length m = length ms"
  using remove_means_lengths(2) [of cnt xs ms] by simp

lemma length_means_add_j [simp]: "length (means (fst (add_j c xs))) = length (means c)"
  by (auto simp: add_j_def Let_def split: prod.splits dest: add_means_snd)

lemma length_means_addDecay_j [simp]:
  "length (means (fst (addDecay_j c xs))) = length (means c)"
  by (auto simp: addDecay_j_def Let_def split: prod.splits dest: addDecay_means_snd)

lemma length_means_remove_j [simp]: "length (means (fst (remove_j c xs))) = length (means c)"
  by (auto simp: remove_j_def Let_def split: prod.splits dest: remove_means_snd)

lemma wf_core_NewCore_j:
  assumes "NewCore_j config = Inr c"
  shows "wf_core c"
proof -
  from assms obtain w v where
    ok: "validateConfig_j (setConfigDefaults_j config) = None"
    and c: "means c = replicate (nat v) 0" "tuples c = Sums_j config"
    and v: "(if Vars config = None \<and> 0 < length (Sums_j config)
             then Some (int (length (hd (Sums_j config)))) else Vars config) = Some v"
    by (auto simp: NewCore_j_def Let_def setConfigDefaults_j_def
        split: option.splits if_splits)
  have cfg: "Sums_j (setConfigDefaults_j config) = Sums_j config"
    "Vars (setConfigDefaults_j config) = Vars config"
    by (simp_all add: setConfigDefaults_j_def split: option.splits)
  have "wf_tuple (nat v) t" if t: "t \<in> set (Sums_j config)" for t
  proof -
    from ok t cfg have same: "length t = length (hd (Sums_j config))"
      and nonneg: "\<forall>e\<in>set t. 0 \<le> e"
      and vars: "\<And>u. Vars config = Some u \<Longrightarrow> int (length t) = u"
      by (auto simp: validateConfig_j_def list_ex_iff not_less split: if_splits option.splits)
    from t have ne: "0 < length (Sums_j config)" by (cases "Sums_j config") auto
    have "length t = nat v"
    proof (cases "Vars config")
      case None
      with v ne same show ?thesis by simp
    next
      case (Some u)
      with v vars [OF Some] show ?thesis by simp
    qed
    with nonneg show ?thesis by (simp add: wf_tuple_def list_all_iff)
  qed
  then show ?thesis by (simp add: wf_core_def c list_all_iff)
qed

lemma wf_core_cong:
  "length (means s) = length (means c) \<Longrightarrow> tuples s = tuples c \<Longrightarrow> wf_core s = wf_core c"
  by (simp add: wf_core_def)

lemma wf_core_steps:
  "wf_core (c\<lparr>queue_j := q\<rparr>) = wf_core c"
  "wf_core (fst (add_j c xs)) = wf_core c"
  "wf_core (fst (addDecay_j c xs)) = wf_core c"
  "wf_core (fst (remove_j c xs)) = wf_core c"
  by (rule wf_core_cong; simp)+

lemma wf_core_UnsafePush_j:
  assumes wf: "wf_core c"
  shows "wf_core (fst (UnsafePush_j c xs))"
proof (cases "length xs \<noteq> length (means c)")
  case True
  with wf show ?thesis by (simp add: UnsafePush_j_def)
next
  case arity: False
  define r0 where "r0 =
    (if Len (queue_j c) = uint64 (window_j c) then
       (case Get (queue_j c) of
          Inl err \<Rightarrow> (c, Some (Wrap ''error popping item from queue'' err))
        | Inr (tail, q) \<Rightarrow> wrap_err ''error removing from sums'' (remove_j (c\<lparr>queue_j := q\<rparr>) tail))
     else (c, None))"
  have w0: "wf_core (fst r0)"
    using wf by (auto simp: r0_def wf_core_steps split: sum.splits)
  define r1 where "r1 =
    (if window_j c \<noteq> 0 then
       (case r0 of
          (c0, Some err) \<Rightarrow> (c0, Some err)
        | (c0, None) \<Rightarrow>
            (case Put (queue_j c0) xs of
               Inl err \<Rightarrow> (c0, Some (Wrap ''error pushing to queue'' err))
             | Inr q \<Rightarrow> (c0\<lparr>queue_j := q\<rparr>, None)))
     else (c, None))"
  have w1: "wf_core (fst r1)"
    using wf w0 by (cases r0) (auto simp: r1_def wf_core_steps split: sum.splits option.splits)
  have "UnsafePush_j c xs =
    (case r1 of
       (c1, Some err) \<Rightarrow> (c1, Some err)
     | (c1, None) \<Rightarrow>
         wrap_err ''error adding to sums''
           (if decay_j c1 = None then add_j c1 xs else addDecay_j c1 xs))"
    using arity by (simp add: UnsafePush_j_def Let_def r1_def r0_def)
  with w1 show ?thesis
    by (cases r1) (auto simp: wf_core_steps split: option.splits)
qed

lemma wf_core_UnsafeClear_j: "wf_core c \<Longrightarrow> wf_core (UnsafeClear_j c)"
  by (simp add: wf_core_def UnsafeClear_j_def)

lemma reachable_j_wf_core: "reachable_j config c \<Longrightarrow> wf_core c"
  by (induction rule: reachable_j.induct)
     (simp_all add: wf_core_NewCore_j wf_core_UnsafePush_j wf_core_UnsafeClear_j)

section \<open>The joint engine: removal over the full pass\<close>

text \<open>
  The loop of \<^verbatim>\<open>remove\<close> over the target tuples never fails on a well-formed core, and is
  the fold of the passes. Within a pass the tuples are visited in increasing magnitude and
  once each, and the value of a tuple depends on the scratch accumulators of the tuples
  strictly below it only; so after the pass every visited tuple holds the value of the
  inverse recurrence read on the final scratch accumulators. A tuple of magnitude at most 1
  keeps its committed sum. In every reachable state the scratch accumulators equal the
  committed sums.
\<close>

lemma for_each_total:
  assumes "\<And>x s. x \<in> set xs \<Longrightarrow> cb x s = (f x s, None)"
  shows "for_each cb xs s = (fold f xs s, None)"
  using assms by (induction xs arbitrary: s) simp_all

lemma iter_remove_closed:
  assumes "list_all (wf_tuple (length delta)) as"
  shows "for_each (remove_tuple cnt delta) as s =
         (s\<lparr>newSums := remove_pass cnt delta (sums_j s) as (newSums s)\<rparr>, None)"
  using assms
proof (induction as arbitrary: s)
  case Nil
  then show ?case by (simp add: remove_pass_def)
next
  case (Cons a as)
  then have a: "wf_tuple (length delta) a" and as: "list_all (wf_tuple (length delta)) as"
    by simp_all
  show ?case
    by (simp add: remove_tuple_closed [OF a] Cons.IH [OF as] remove_pass_def hash_def)
qed

lemma below_abs_T_less:
  assumes "below d a" "d \<noteq> a"
  shows "abs_T d < abs_T a"
  using assms unfolding abs_T_def
proof (induction d a rule: list_all2_induct)
  case Nil
  then show ?case by simp
next
  case (Cons x xs y ys)
  have le: "sum_list xs \<le> sum_list ys"
    using Cons.hyps(2) by (induction xs ys rule: list_all2_induct) auto
  show ?case
  proof (cases "xs = ys")
    case True
    with Cons show ?thesis by auto
  next
    case False
    with Cons have "sum_list xs < sum_list ys" by simp
    with Cons.hyps(1) show ?thesis by simp
  qed
qed

lemma below_diff:
  assumes "below b a"
  shows "below (map2 (-) a b) a"
  using assms by (induction b a rule: list_all2_induct) auto

lemma remove_value_scratch_cong:
  assumes "\<And>d. below d a \<Longrightarrow> d \<noteq> a \<Longrightarrow> get0 N d = get0 N' d"
  shows "remove_value cnt delta S N a = remove_value cnt delta S N' a"
proof -
  have "remove_contrib cnt delta S N a b = remove_contrib cnt delta S N' a b"
    if "b \<in> set (iter_order a False)" for b
  proof -
    from that have b: "below b a" by (simp add: tuples_upto_iff)
    show ?thesis
    proof (cases "abs_T b = 0 \<or> b = a")
      case True
      then show ?thesis by (auto simp: remove_contrib_def)
    next
      case False
      then have "map2 (-) a b \<noteq> a" using below_sub_neq [OF b] by simp
      with assms [OF below_diff [OF b]] show ?thesis by (simp add: remove_contrib_def)
    qed
  qed
  then show ?thesis unfolding remove_value_def by (intro arg_cong [where f = sum_list] map_cong) simp_all
qed

lemma remove_value_committed_cong:
  assumes "get0 S a = get0 S' a"
  shows "remove_value cnt delta S N a = remove_value cnt delta S' N a"
proof -
  have "remove_contrib cnt delta S N a b = remove_contrib cnt delta S' N a b" for b
    using assms by (simp add: remove_contrib_def)
  then show ?thesis by (simp add: remove_value_def)
qed

lemma remove_pass_other: "h \<notin> set as \<Longrightarrow> remove_pass cnt delta S as N h = N h"
  unfolding remove_pass_def by (induction as arbitrary: N) simp_all

lemma remove_pass_fix:
  assumes "sorted (map abs_T as)" "distinct as" "a \<in> set as"
  shows "remove_pass cnt delta S as N a =
         Some (remove_value cnt delta S (remove_pass cnt delta S as N) a)"
  using assms
proof (induction as arbitrary: N)
  case Nil
  then show ?case by simp
next
  case (Cons x xs)
  let ?N1 = "N(x \<mapsto> remove_value cnt delta S N x)"
  have step: "remove_pass cnt delta S (x # xs) N = remove_pass cnt delta S xs ?N1"
    by (simp add: remove_pass_def)
  show ?case
  proof (cases "a \<in> set xs")
    case True
    with Cons show ?thesis by (simp add: step)
  next
    case False
    with Cons.prems have a: "a = x" and nx: "x \<notin> set xs" by simp_all
    have "get0 N d = get0 (remove_pass cnt delta S xs ?N1) d" if "below d x" "d \<noteq> x" for d
    proof -
      from that have lt: "abs_T d < abs_T x" by (rule below_abs_T_less)
      have "d \<notin> set xs"
      proof
        assume "d \<in> set xs"
        with Cons.prems(1) have "abs_T x \<le> abs_T d" by auto
        with lt show False by simp
      qed
      then show ?thesis using that(2) by (simp add: remove_pass_other get0_def)
    qed
    then have "remove_value cnt delta S N x =
               remove_value cnt delta S (remove_pass cnt delta S xs ?N1) x"
      by (rule remove_value_scratch_cong)
    then show ?thesis using nx by (simp add: step a remove_pass_other)
  qed
qed

lemma distinct_tuples_upto: "distinct (tuples_upto t)"
proof (induction t)
  case Nil
  then show ?case by simp
next
  case (Cons n ns)
  have "distinct (concat (map (\<lambda>i. map ((#) i) (tuples_upto ns)) js))" if "distinct js"
    for js :: "int list"
    using that Cons.IH by (induction js) (auto simp: distinct_map)
  then show ?case by simp
qed

lemma iter_order_facts:
  "distinct (iter_order t r)"
  "sorted (map abs_T (iter_order t False))"
  by (simp_all add: iter_order_def Let_def distinct_tuples_upto)

lemma wf_tuple_iter_order:
  "wf_tuple n t \<Longrightarrow> list_all (wf_tuple n) (iter_order t r)"
  by (simp add: list_all_iff wf_tuple_below)

lemma below_abs_T_nonneg: "below b a \<Longrightarrow> 0 \<le> abs_T b"
  unfolding abs_T_def by (induction b a rule: list_all2_induct) auto

lemma below_abs_T_zero: "below b a \<Longrightarrow> abs_T b = 0 \<Longrightarrow> b = map (\<lambda>_. 0) a"
  unfolding abs_T_def
proof (induction b a rule: list_all2_induct)
  case Nil
  then show ?case by simp
next
  case (Cons x xs y ys)
  have "0 \<le> sum_list xs" using Cons.hyps(2) below_abs_T_nonneg [of xs ys] by (simp add: abs_T_def)
  with Cons show ?case by auto
qed

lemma zero_below: "list_all (\<lambda>e. 0 \<le> e) a \<Longrightarrow> below (map (\<lambda>_. 0) a) a"
  by (induction a) auto

lemma abs_T_zero: "abs_T (map (\<lambda>_. 0) a) = 0"
  by (induction a) (simp_all add: abs_T_def)

lemma remove_value_small:
  assumes nn: "list_all (\<lambda>e. 0 \<le> e) a" and small: "abs_T a \<le> 1"
  shows "remove_value cnt delta S N a = get0 S a"
proof -
  let ?z = "map (\<lambda>_. 0) a :: Tuple"
  have c: "remove_contrib cnt delta S N a b = (if b = ?z then get0 S a else 0)"
    if "b \<in> set (tuples_upto a)" for b
  proof -
    from that have b: "below b a" by (simp add: tuples_upto_iff)
    show ?thesis
    proof (cases "abs_T b = 0")
      case True
      with b have "b = ?z" by (rule below_abs_T_zero)
      with True show ?thesis by (simp add: remove_contrib_def)
    next
      case False
      with below_abs_T_nonneg [OF b] have pos: "1 \<le> abs_T b" by simp
      have "b = a"
      proof (rule ccontr)
        assume "b \<noteq> a"
        with b have "abs_T b < abs_T a" by (rule below_abs_T_less)
        with pos small show False by simp
      qed
      moreover from this pos small have "abs_T a = 1" by simp
      moreover have "a \<noteq> ?z"
      proof
        assume "a = ?z"
        then have "abs_T a = abs_T ?z" by simp
        with \<open>abs_T a = 1\<close> show False by (simp only: abs_T_zero)
      qed
      ultimately show ?thesis by (simp add: remove_contrib_def Sign_def)
    qed
  qed
  have "remove_value cnt delta S N a =
        (\<Sum>b\<in>set (tuples_upto a). remove_contrib cnt delta S N a b)"
    unfolding remove_value_def
    using sum_list_distinct_conv_sum_set [OF iter_order_facts(1), of "remove_contrib cnt delta S N a" a False]
    by simp
  also have "\<dots> = (\<Sum>b\<in>set (tuples_upto a). if b = ?z then get0 S a else 0)"
    by (rule sum.cong) (simp_all add: c)
  also have "\<dots> = get0 S a"
    using zero_below [OF nn] by (simp add: tuples_upto_iff del: tuples_upto.simps)
  finally show ?thesis .
qed

lemma remove_sums_closed:
  assumes "wf_core c" "length delta = length (means c)"
  shows "remove_sums cnt delta c = (fold (remove_target cnt delta) (tuples c) c, None)"
  unfolding remove_sums_def
proof (rule for_each_total)
  fix t and s :: JointCore assume "t \<in> set (tuples c)"
  with assms have "wf_tuple (length delta) t" by (simp add: wf_core_def list_all_iff)
  then have "list_all (wf_tuple (length delta)) (iter_order t False)"
    by (rule wf_tuple_iter_order)
  then show "(case wrap_err ''error removing from sums for tuple''
                  (iter t False (remove_tuple cnt delta) s) of
               (c', Some err) \<Rightarrow> (c', Some err)
             | (c', None) \<Rightarrow> (commit c', None)) = (remove_target cnt delta t s, None)"
    by (simp add: iter_def iter_remove_closed remove_target_def)
qed

lemma remove_pass_Cons:
  "remove_pass cnt delta S (a # as) N =
   remove_pass cnt delta S as (N(a \<mapsto> remove_value cnt delta S N a))"
  by (simp add: remove_pass_def)

lemma remove_pass_None: "remove_pass cnt delta S as N h = None \<Longrightarrow> N h = None"
proof (induction as arbitrary: N)
  case Nil
  then show ?case by (simp add: remove_pass_def)
next
  case (Cons a as)
  from Cons.prems have "remove_pass cnt delta S as (N(a \<mapsto> remove_value cnt delta S N a)) h = None"
    by (simp only: remove_pass_Cons)
  then have "(N(a \<mapsto> remove_value cnt delta S N a)) h = None" by (rule Cons.IH)
  then show ?case by (simp split: if_splits)
qed

lemma remove_target_agree:
  assumes "newSums s = sums_j s"
  shows "remove_target cnt delta t s =
         s\<lparr>newSums := remove_pass cnt delta (sums_j s) (iter_order t False) (sums_j s),
           sums_j := remove_pass cnt delta (sums_j s) (iter_order t False) (sums_j s)\<rparr>"
proof -
  let ?M' = "remove_pass cnt delta (sums_j s) (iter_order t False) (sums_j s)"
  have "(sums_j s ++ ?M') h = ?M' h" for h
    using remove_pass_None [of cnt delta "sums_j s" "iter_order t False" "sums_j s" h]
    by (cases "?M' h") (simp_all add: map_add_def)
  then have "sums_j s ++ ?M' = ?M'" by (simp add: fun_eq_iff)
  then show ?thesis by (simp add: remove_target_def commit_def assms)
qed

lemma below_nonneg: "below b a \<Longrightarrow> list_all (\<lambda>e. 0 \<le> e) b"
  by (induction b a rule: list_all2_induct) auto

lemma below_trans: "below d a \<Longrightarrow> below a t \<Longrightarrow> below d t"
  by (fastforce simp: list_all2_conv_all_nth)

lemma remove_fold_fix:
  assumes "separated ts"
    and "newSums s = sums_j s"
    and "\<And>a. a \<notin> P \<Longrightarrow> sums_j s a = S0 a"
    and "\<And>a. a \<in> P \<Longrightarrow> sums_j s a = Some (remove_value cnt delta S0 (sums_j s) a)"
    and "\<And>a d. a \<in> P \<Longrightarrow> below d a \<Longrightarrow> d \<in> P"
    and "\<And>t a. t \<in> set ts \<Longrightarrow> a \<in> set (tuples_upto t) \<Longrightarrow> a \<in> P \<Longrightarrow> abs_T a \<le> 1"
  shows "newSums (fold (remove_target cnt delta) ts s) = sums_j (fold (remove_target cnt delta) ts s) \<and>
         (\<forall>a\<in>P \<union> (\<Union>t\<in>set ts. set (tuples_upto t)).
            sums_j (fold (remove_target cnt delta) ts s) a =
              Some (remove_value cnt delta S0 (sums_j (fold (remove_target cnt delta) ts s)) a))"
  using assms
proof (induction ts arbitrary: s P)
  case Nil
  then show ?case by simp
next
  case (Cons t ts)
  let ?M = "sums_j s"
  let ?M' = "remove_pass cnt delta ?M (iter_order t False) ?M"
  let ?s1 = "remove_target cnt delta t s"
  let ?P1 = "P \<union> set (tuples_upto t)"
  have s1: "?s1 = s\<lparr>newSums := ?M', sums_j := ?M'\<rparr>"
    by (rule remove_target_agree) (rule Cons.prems(2))
  have other: "?M' h = ?M h" if "h \<notin> set (tuples_upto t)" for h
    using that by (simp add: remove_pass_other)
  have fixt: "?M' a = Some (remove_value cnt delta ?M ?M' a)" if "a \<in> set (tuples_upto t)" for a
    using that by (intro remove_pass_fix iter_order_facts) simp
  have smallP: "abs_T a \<le> 1" if "a \<in> set (tuples_upto t)" "a \<in> P" for a
    using Cons.prems(6) [of t a] that by simp
  have small_new: "get0 ?M' d = get0 ?M d" if "d \<in> set (tuples_upto t)" "d \<in> P" for d
  proof -
    from that(1) have "list_all (\<lambda>e. 0 \<le> e) d" by (simp add: tuples_upto_iff below_nonneg)
    then have "remove_value cnt delta ?M ?M' d = get0 ?M d"
      using smallP [OF that] by (rule remove_value_small)
    with fixt [OF that(1)] show ?thesis by (simp add: get0_def)
  qed
  have agree: "get0 ?M' d = get0 ?M d" if "d \<in> P" for d
    using that small_new [of d] other [of d]
    by (cases "d \<in> set (tuples_upto t)") (simp_all add: get0_def)
  have sep: "separated ts" using Cons.prems(1) by simp
  have eq1: "newSums ?s1 = sums_j ?s1" by (simp add: s1)
  have out1: "sums_j ?s1 a = S0 a" if "a \<notin> ?P1" for a
    using that Cons.prems(3) [of a] by (simp add: s1 other)
  have fix1: "sums_j ?s1 a = Some (remove_value cnt delta S0 (sums_j ?s1) a)" if "a \<in> ?P1" for a
  proof (cases "a \<in> set (tuples_upto t)")
    case True
    have "get0 ?M a = get0 S0 a"
    proof (cases "a \<in> P")
      case False
      then show ?thesis using Cons.prems(3) [of a] by (simp add: get0_def)
    next
      case inP: True
      from True have "list_all (\<lambda>e. 0 \<le> e) a" by (simp add: tuples_upto_iff below_nonneg)
      then have "remove_value cnt delta S0 ?M a = get0 S0 a"
        using smallP [OF True inP] by (rule remove_value_small)
      with Cons.prems(4) [OF inP] show ?thesis by (simp add: get0_def)
    qed
    then have "remove_value cnt delta ?M ?M' a = remove_value cnt delta S0 ?M' a"
      by (rule remove_value_committed_cong)
    with fixt [OF True] show ?thesis by (simp add: s1)
  next
    case False
    with that have inP: "a \<in> P" by simp
    have "remove_value cnt delta S0 ?M a = remove_value cnt delta S0 ?M' a"
    proof (rule remove_value_scratch_cong)
      fix d assume "below d a" "d \<noteq> a"
      with Cons.prems(5) [OF inP] have "d \<in> P" by simp
      then show "get0 ?M d = get0 ?M' d" by (simp add: agree)
    qed
    with Cons.prems(4) [OF inP] other [OF False] show ?thesis by (simp add: s1)
  qed
  have down1: "d \<in> ?P1" if "a \<in> ?P1" "below d a" for a d
  proof (cases "a \<in> P")
    case True
    with Cons.prems(5) that(2) show ?thesis by blast
  next
    case False
    with that have "below a t" by (simp add: tuples_upto_iff)
    with that(2) have "below d t" by (rule below_trans)
    then show ?thesis by (simp add: tuples_upto_iff)
  qed
  have K1: "abs_T a \<le> 1" if "u \<in> set ts" "a \<in> set (tuples_upto u)" "a \<in> ?P1" for u a
  proof (cases "a \<in> P")
    case True
    with Cons.prems(6) [of u a] that show ?thesis by simp
  next
    case False
    with that have "a \<in> set (tuples_upto t)" by simp
    with Cons.prems(1) that show ?thesis by auto
  qed
  from Cons.IH [of ?s1 ?P1, OF sep eq1 out1 fix1 down1 K1]
  show ?case by (simp add: Un_assoc)
qed

lemma remove_j_closed:
  assumes wf: "wf_core c" and len: "length xs = length (means c)" and cnt1: "1 < count_j c"
    and eq: "newSums c = sums_j c" and sep: "separated (tuples c)"
  defines "cnt \<equiv> real_of_int (count_j c - 1)"
  defines "delta \<equiv> fst (remove_means cnt xs (means c))"
  shows "snd (remove_j c xs) = None"
    and "newSums (fst (remove_j c xs)) = sums_j (fst (remove_j c xs))"
    and "a \<in> tracked c \<Longrightarrow>
         sums_j (fst (remove_j c xs)) (hash a) =
           Some (remove_value cnt delta (sums_j c) (newSums (fst (remove_j c xs))) a)"
proof -
  let ?c1 = "c\<lparr>count_j := count_j c - 1, means := snd (remove_means cnt xs (means c))\<rparr>"
  have wf1: "wf_core ?c1" using wf by (simp add: wf_core_def)
  have len1: "length delta = length (means ?c1)" by (simp add: delta_def)
  have "remove_j c xs = remove_sums cnt delta ?c1"
    using len cnt1 by (simp add: remove_j_def Let_def cnt_def delta_def split: prod.splits)
  then have r: "remove_j c xs = (fold (remove_target cnt delta) (tuples c) ?c1, None)"
    by (simp add: remove_sums_closed [OF wf1 len1])
  have fixp: "newSums (fold (remove_target cnt delta) (tuples c) ?c1) =
              sums_j (fold (remove_target cnt delta) (tuples c) ?c1) \<and>
         (\<forall>a\<in>{} \<union> (\<Union>t\<in>set (tuples c). set (tuples_upto t)).
            sums_j (fold (remove_target cnt delta) (tuples c) ?c1) a =
              Some (remove_value cnt delta (sums_j c)
                      (sums_j (fold (remove_target cnt delta) (tuples c) ?c1)) a))"
    by (rule remove_fold_fix) (simp_all add: sep eq)
  show "snd (remove_j c xs) = None" by (simp add: r)
  show "newSums (fst (remove_j c xs)) = sums_j (fst (remove_j c xs))"
    using fixp by (simp add: r)
  show "sums_j (fst (remove_j c xs)) (hash a) =
           Some (remove_value cnt delta (sums_j c) (newSums (fst (remove_j c xs))) a)"
    if "a \<in> tracked c"
    using fixp that unfolding r tracked_def hash_def by auto
qed

lemma remove_fold_agree:
  "newSums s = sums_j s \<Longrightarrow>
   newSums (fold (remove_target cnt delta) ts s) = sums_j (fold (remove_target cnt delta) ts s)"
proof (induction ts arbitrary: s)
  case Nil
  then show ?case by simp
next
  case (Cons t ts)
  have "newSums (remove_target cnt delta t s) = sums_j (remove_target cnt delta t s)"
    by (simp add: remove_target_agree [OF Cons.prems])
  then show ?case by (simp add: Cons.IH)
qed

lemma agree_remove_j:
  assumes wf: "wf_core c" and eq: "newSums c = sums_j c"
  shows "newSums (fst (remove_j c xs)) = sums_j (fst (remove_j c xs))"
proof (cases "1 < count_j c \<and> \<not> length (means c) < length xs")
  case False
  then show ?thesis using eq by (auto simp: remove_j_def Let_def)
next
  case True
  define cnt where "cnt = real_of_int (count_j c - 1)"
  define delta where "delta = fst (remove_means cnt xs (means c))"
  let ?c1 = "c\<lparr>count_j := count_j c - 1, means := snd (remove_means cnt xs (means c))\<rparr>"
  have wf1: "wf_core ?c1" using wf by (simp add: wf_core_def)
  have len1: "length delta = length (means ?c1)" by (simp add: delta_def)
  have "remove_j c xs = remove_sums cnt delta ?c1"
    using True by (simp add: remove_j_def Let_def cnt_def delta_def split: prod.splits)
  then have "remove_j c xs = (fold (remove_target cnt delta) (tuples c) ?c1, None)"
    by (simp add: remove_sums_closed [OF wf1 len1])
  then show ?thesis using eq by (simp add: remove_fold_agree)
qed

lemma agree_add_j:
  assumes wf: "wf_core c" and eq: "newSums c = sums_j c" and len: "length xs = length (means c)"
  shows "newSums (fst (add_j c xs)) = sums_j (fst (add_j c xs))"
proof -
  define cnt where "cnt = real_of_int (count_j c + 1)"
  define delta where "delta = fst (add_means cnt xs (means c))"
  let ?c1 = "c\<lparr>count_j := count_j c + 1, means := snd (add_means cnt xs (means c))\<rparr>"
  have wf1: "wf_core ?c1" using wf by (simp add: wf_core_def)
  have len1: "length delta = length (means ?c1)" by (simp add: delta_def)
  have "add_j c xs = add_sums cnt delta ?c1"
    using len by (simp add: add_j_def Let_def cnt_def delta_def split: prod.splits)
  then show ?thesis
    using eq by (auto simp: add_sums_closed [OF wf1 len1] fun_eq_iff map_add_def split: option.splits)
qed

lemma agree_addDecay_j:
  assumes wf: "wf_core c" and eq: "newSums c = sums_j c" and len: "length xs = length (means c)"
  shows "newSums (fst (addDecay_j c xs)) = sums_j (fst (addDecay_j c xs))"
proof -
  define dec where "dec = (if count_j c = 0 then 1 else case decay_j c of Some d \<Rightarrow> d | None \<Rightarrow> 0)"
  define delta where "delta = fst (addDecay_means dec xs (means c))"
  let ?c1 = "c\<lparr>count_j := count_j c + 1, means := snd (addDecay_means dec xs (means c))\<rparr>"
  have wf1: "wf_core ?c1" using wf by (simp add: wf_core_def)
  have len1: "length delta = length (means ?c1)" by (simp add: delta_def)
  have "addDecay_j c xs = addDecay_sums dec delta ?c1"
    using len by (simp add: addDecay_j_def Let_def dec_def delta_def split: prod.splits)
  then show ?thesis
    using eq by (auto simp: addDecay_sums_closed [OF wf1 len1] fun_eq_iff map_add_def split: option.splits)
qed

lemma agree_UnsafePush_j:
  assumes wf: "wf_core c" and eq: "newSums c = sums_j c"
  shows "newSums (fst (UnsafePush_j c xs)) = sums_j (fst (UnsafePush_j c xs))"
proof (cases "length xs \<noteq> length (means c)")
  case True
  with eq show ?thesis by (simp add: UnsafePush_j_def)
next
  case arity: False
  define R where "R s \<longleftrightarrow> wf_core s \<and> newSums s = sums_j s \<and> length (means s) = length (means c)"
    for s :: JointCore
  have R0: "R c" using wf eq by (simp add: R_def)
  have step_q: "R (s\<lparr>queue_j := q\<rparr>)" if "R s" for s q
    using that by (simp add: R_def wf_core_steps)
  have step_r: "R (fst (remove_j s t))" if "R s" for s t
    using that by (simp add: R_def wf_core_steps agree_remove_j)
  have step_a: "R (fst (add_j s xs))" "R (fst (addDecay_j s xs))" if "R s" for s
    using that arity by (simp_all add: R_def wf_core_steps agree_add_j agree_addDecay_j)
  define r0 where "r0 =
    (if Len (queue_j c) = uint64 (window_j c) then
       (case Get (queue_j c) of
          Inl err \<Rightarrow> (c, Some (Wrap ''error popping item from queue'' err))
        | Inr (tail, q) \<Rightarrow> wrap_err ''error removing from sums'' (remove_j (c\<lparr>queue_j := q\<rparr>) tail))
     else (c, None))"
  have w0: "R (fst r0)"
    using R0 by (auto simp: r0_def step_q step_r split: sum.splits)
  define r1 where "r1 =
    (if window_j c \<noteq> 0 then
       (case r0 of
          (c0, Some err) \<Rightarrow> (c0, Some err)
        | (c0, None) \<Rightarrow>
            (case Put (queue_j c0) xs of
               Inl err \<Rightarrow> (c0, Some (Wrap ''error pushing to queue'' err))
             | Inr q \<Rightarrow> (c0\<lparr>queue_j := q\<rparr>, None)))
     else (c, None))"
  have w1: "R (fst r1)"
    using R0 w0 by (cases r0) (auto simp: r1_def step_q split: sum.splits option.splits)
  have "UnsafePush_j c xs =
    (case r1 of
       (c1, Some err) \<Rightarrow> (c1, Some err)
     | (c1, None) \<Rightarrow>
         wrap_err ''error adding to sums''
           (if decay_j c1 = None then add_j c1 xs else addDecay_j c1 xs))"
    using arity by (simp add: UnsafePush_j_def Let_def r1_def r0_def)
  with w1 have "R (fst (UnsafePush_j c xs))"
    by (cases r1) (auto simp: step_a split: option.splits)
  then show ?thesis by (simp add: R_def)
qed

lemma agree_NewCore_j: "NewCore_j config = Inr c \<Longrightarrow> newSums c = sums_j c"
  by (auto simp: NewCore_j_def Let_def split: option.splits if_splits)

lemma reachable_j_agree: "reachable_j config c \<Longrightarrow> newSums c = sums_j c"
proof (induction rule: reachable_j.induct)
  case (reachable_j_new config c)
  then show ?case by (rule agree_NewCore_j)
next
  case (reachable_j_push config c xs)
  then show ?case by (intro agree_UnsafePush_j reachable_j_wf_core)
next
  case (reachable_j_clear config c)
  then show ?case by (simp add: UnsafeClear_j_def)
qed

section \<open>The scenarios, by evaluation\<close>

lemma reachable_pushAll: "reachable config c \<Longrightarrow> reachable config (fst (pushAll c xs))"
proof (induction xs arbitrary: c)
  case Nil
  then show ?case by simp
next
  case (Cons x xs)
  from Cons.prems have r: "reachable config (fst (UnsafePush c x))" by (rule reachable_push)
  show ?case
  proof (cases "UnsafePush c x")
    case (Pair c' e)
    with r Cons.IH [of c'] show ?thesis by (cases e) simp_all
  qed
qed

lemmas eval_simps =
  UnsafePush_def add_def add_order_def add_inner_def remove_def remove_order_def
  remove_inner_def addDecay_def addDecay_order_def
  Let_def Sign_def Binom_def Len_def Get_def Put_def NewRingBuffer_def uint64_def
  upt_rec numeral_eq_Suc binomial_Suc_Suc

lemmas new_simps =
  NewCore_def setConfigDefaults_def validateConfig_def maxSum_def uint64_def eval_nat_numeral

lemma scenario_NewCore: "NewCore scenario_config = Inr scenario_new"
  by (simp add: scenario_config_def scenario_new_def new_simps)


lemma scenario_pushAll: "pushAll scenario_new [1, 2, 3, 4] = (scenario_pushed, None)"
  by (simp add: scenario_new_def scenario_pushed_def eval_simps pushAll.simps)

lemma window_NewCore: "NewCore window_config = Inr window_new"
  by (simp add: window_config_def window_new_def new_simps)

lemma window_pushAll: "pushAll window_new [1, 2, 3, 4, 8] = (window_pushed, None)"
  by (simp add: window_new_def window_pushed_def eval_simps pushAll.simps)

declare pushAll.simps [simp del]

lemma decayed_NewCore: "NewCore decayed_config = Inr decayed_new"
  by (simp add: decayed_config_def decayed_new_def new_simps)



lemma reachable_window_pushed: "reachable window_config window_pushed"
  using reachable_pushAll [OF reachable_new [OF window_NewCore], of "[1, 2, 3, 4, 8]"]
  by (simp only: window_pushAll fst_conv)


lemmas new_j_simps =
  NewCore_j_def setConfigDefaults_j_def validateConfig_j_def uint64_def Let_def
  iter_def iter_order_def abs_T_def hash_def upto.simps eval_nat_numeral

lemmas eval_j_simps =
  UnsafePush_j_def add_j_def addDecay_j_def remove_j_def add_sums_def addDecay_sums_def
  remove_sums_def add_tuple_def addDecay_tuple_def remove_tuple_def add_term_def
  addDecay_term_def remove_term_def add_means_def addDecay_means_def remove_means_def
  newSums_add_def commit_def get0_def pow_def multinom_def sub_def eq_def hash_def abs_T_def
  iter_def iter_order_def Let_def Sign_def Binom_def Len_def Get_def Put_def NewRingBuffer_def
  uint64_def upt_rec upto.simps numeral_eq_Suc binomial_Suc_Suc

lemma cov_NewCore: "NewCore_j cov_config = Inr cov_new"
  by (simp add: cov_config_def cov_new_def cov_init_def new_j_simps)

lemma cov_push: "UnsafePush_j cov_new [3, 5] = (cov_pushed, None)"
  by (simp add: cov_new_def cov_pushed_def cov_init_def eval_j_simps fun_eq_iff)

lemma reachable_cov_new: "reachable_j cov_config cov_new"
  by (rule reachable_j_new [OF cov_NewCore])

lemma reachable_cov_pushed: "reachable_j cov_config cov_pushed"
  using reachable_j_push [OF reachable_cov_new, of "[3, 5]"] by (simp only: cov_push fst_conv)


lemma cube_NewCore: "NewCore_j cube_config = Inr cube_new"
  by (simp add: cube_config_def cube_new_def cube_init_def new_j_simps)

declare pushAll_j.simps [simp del]

lemma cube_pushAll: "pushAll_j cube_new [ [1], [2], [4]] = (cube_pushed, None)"
  by (simp add: cube_new_def cube_pushed_def cube_init_def cube_sums_def eval_j_simps
      fun_eq_iff pushAll_j.simps)

lemma cube_remove_source: "sums_j (fst (remove_j cube_pushed [1])) (hash [3]) = Some 0"
  by (simp add: cube_pushed_def cube_sums_def eval_j_simps)

lemma cube_remove_spec: "sums_j (fst (remove_j_spec cube_pushed [1])) (hash [3]) = Some (- 16 / 3)"
  by (simp add: cube_pushed_def cube_sums_def eval_j_simps remove_j_spec_def
      remove_sums_spec_def remove_tuple_spec_def remove_term_spec_def)

text \<open>
  The commit of \<^verbatim>\<open>remove\<close> is inside the loop over \<^verbatim>\<open>c.tuples\<close>. With the target tuples 2
  and 3 the pass for the target 3 starts from the sum of tuple 2 that the pass for the
  target 2 has already committed, and subtracts from it again: evicting 1 from 1, 2, 4
  leaves the second sum -2/3, where the sum recomputed over 2 and 4 is 2.
\<close>

lemma overlap_remove:
  "NewCore_j overlap_config = Inr overlap_new \<and>
   pushAll_j overlap_new [ [1], [2], [4]] = (overlap_pushed, None) \<and>
   sums_j (fst (remove_j overlap_pushed [1])) (hash [2]) = Some (- 2 / 3) \<and>
   spec_central_sum 2 [2, 4] = 2"
proof -
  have "NewCore_j overlap_config = Inr overlap_new"
    by (simp add: overlap_config_def overlap_new_def cube_init_def new_j_simps fun_eq_iff)
  moreover have "pushAll_j overlap_new [ [1], [2], [4]] = (overlap_pushed, None)"
    by (simp add: overlap_new_def overlap_pushed_def cube_init_def cube_sums_def eval_j_simps
        fun_eq_iff pushAll_j.simps)
  moreover have "sums_j (fst (remove_j overlap_pushed [1])) (hash [2]) = Some (- 2 / 3)"
    by (simp add: overlap_pushed_def cube_sums_def eval_j_simps)
  moreover have "spec_central_sum 2 [2, 4] = 2"
    by (simp add: spec_central_sum_def spec_mean_def)
  ultimately show ?thesis by simp
qed

section \<open>Further scenarios, and the push and the query of the univariate engine\<close>







lemma pair_NewCore: "NewCore_j pair_config = Inr pair_new"
  by (simp add: pair_config_def pair_new_def cube_init_def new_j_simps fun_eq_iff)

lemma pair_pushAll: "pushAll_j pair_new [ [1], [2], [4]] = (pair_pushed, None)"
  by (simp add: pair_new_def pair_pushed_def cube_init_def cube_sums_def eval_j_simps
      fun_eq_iff pushAll_j.simps)

lemma pair_remove_source:
  "sums_j (fst (remove_j pair_pushed [1])) (hash [3]) = Some 0"
  "sums_j (fst (remove_j pair_pushed [1])) (hash [2]) = Some 2"
  by (simp_all add: pair_pushed_def cube_sums_def eval_j_simps)

lemma reachable_pair_pushed: "reachable_j pair_config pair_pushed"
proof -
  have "reachable_j config (fst (pushAll_j c xss))" if "reachable_j config c" for config c xss
    using that
  proof (induction xss arbitrary: c)
    case Nil
    then show ?case by (simp add: pushAll_j.simps)
  next
    case (Cons xs xss)
    from Cons.prems have r: "reachable_j config (fst (UnsafePush_j c xs))"
      by (rule reachable_j_push)
    show ?case
    proof (cases "UnsafePush_j c xs")
      case (Pair c' e)
      with r Cons.IH [of c'] show ?thesis by (cases e) (simp_all add: pushAll_j.simps)
    qed
  qed
  from this [OF reachable_j_new [OF pair_NewCore], of "[ [1], [2], [4]]"]
  show ?thesis by (simp only: pair_pushAll fst_conv)
qed



section \<open>The unbounded decayed univariate engine is exact\<close>



lemma length_decay_weights [simp]: "length (decay_weights d n) = n"
  by (simp add: decay_weights_def)



























section \<open>The claims\<close>




text \<open>
  Exactness and window correctness of the undecayed univariate engine, for every
  configuration and every sequence of pushes: the pushes succeed, and the count, the mean
  and every centralized power sum of order 1 and above are those recomputed from the
  contents of the window (all the observations when the window is unbounded).
\<close>

theorem undecayed_exact:
  assumes new: "NewCore config = Inr c0" and dec: "Decay config = None"
  shows "\<exists>c. pushAll c0 xs = (c, None) \<and>
           count c = int (length (last_window (window c0) xs)) \<and>
           mean c = spec_mean (last_window (window c0) xs) \<and>
           length (sums_m c) = length (sums_m c0) \<and>
           (\<forall>k. 1 \<le> k \<and> k < length (sums_m c) \<longrightarrow>
                sums_m c ! k = spec_central_sum k (last_window (window c0) xs))"
proof -
  have t: "tracks c0 []" by (rule tracks_NewCore [OF new dec])
  then have w: "0 \<le> window c0" by (simp add: tracks_def)
  from tracks_pushAll [OF t, of xs] obtain c where
    c: "pushAll c0 xs = (c, None)" "tracks c (last_window (window c0) xs)"
      "length (sums_m c) = length (sums_m c0)"
    by (auto simp: foldl_next_window [OF w])
  have "spec_central_sum 1 ys = 0" for ys
    by (simp only: spec_central_sum_about power_sum_about_1)
  then have "(if k < 2 then 0 else spec_central_sum k ys) = spec_central_sum k ys"
    if "1 \<le> k" for k ys
    using that by (cases "k = 1") auto
  with c show ?thesis by (auto simp: tracks_def exact_def)
qed

text \<open>
  Claim C2. Every undecayed univariate engine with window size 3 that is pushed 1, 2, 3, 4
  and then 8 accepts the pushes and then holds the count 3, the mean and, for every
  tracked order, the centralized power sum recomputed over the observations 3, 4, 8 only;
  for the orders 2, 3 and 4 this is not the sum recomputed over all five observations.
\<close>

theorem window_scenario:
  "NewCore config = Inr c0 \<and> Window config = Some 3 \<and> Decay config = None \<longrightarrow>
   (\<exists>c. pushAll c0 [1, 2, 3, 4, 8] = (c, None) \<and>
        count c = 3 \<and> mean c = spec_mean [3, 4, 8] \<and>
        length (sums_m c) = nat (maxSum (Sums config) + 1) \<and>
        (\<forall>k. 1 \<le> k \<and> k < length (sums_m c) \<longrightarrow>
             sums_m c ! k = spec_central_sum k [3, 4, 8]) \<and>
        (\<forall>k. 2 \<le> k \<and> k \<le> 4 \<and> k < length (sums_m c) \<longrightarrow>
             sums_m c ! k \<noteq> spec_central_sum k [1, 2, 3, 4, 8]))"
proof
  assume a: "NewCore config = Inr c0 \<and> Window config = Some 3 \<and> Decay config = None"
  then have w: "window c0 = 3" and len: "length (sums_m c0) = nat (maxSum (Sums config) + 1)"
    by (auto simp: NewCore_def Let_def setConfigDefaults_def split: option.splits)
  have lw: "last_window 3 [1, 2, 3, 4, 8] = [3, 4, 8]" by (simp add: last_window_def)
  from a undecayed_exact [of config c0 "[1, 2, 3, 4, 8]"] obtain c where
    c: "pushAll c0 [1, 2, 3, 4, 8] = (c, None)" "count c = 3" "mean c = spec_mean [3, 4, 8]"
      "length (sums_m c) = length (sums_m c0)"
      "\<forall>k. 1 \<le> k \<and> k < length (sums_m c) \<longrightarrow> sums_m c ! k = spec_central_sum k [3, 4, 8]"
    unfolding w lw by auto
  have ne: "spec_central_sum k [3, 4, 8] \<noteq> spec_central_sum k [1, 2, 3, 4, 8]"
    if "2 \<le> k \<and> k \<le> 4" for k
  proof -
    from that have "k = 2 \<or> k = 3 \<or> k = 4" by auto
    then show ?thesis
      by (auto simp: spec_central_sum_def spec_mean_def power_def)
  qed
  from c len ne show "\<exists>c. pushAll c0 [1, 2, 3, 4, 8] = (c, None) \<and>
        count c = 3 \<and> mean c = spec_mean [3, 4, 8] \<and>
        length (sums_m c) = nat (maxSum (Sums config) + 1) \<and>
        (\<forall>k. 1 \<le> k \<and> k < length (sums_m c) \<longrightarrow>
             sums_m c ! k = spec_central_sum k [3, 4, 8]) \<and>
        (\<forall>k. 2 \<le> k \<and> k \<le> 4 \<and> k < length (sums_m c) \<longrightarrow>
             sums_m c ! k \<noteq> spec_central_sum k [1, 2, 3, 4, 8])"
    by auto
qed

text \<open>
  Witness for C2: the engine tracking the orders 1 to 4, whose state after the five pushes
  is computed by evaluation.
\<close>

theorem window_scenario_witness:
  "NewCore window_config = Inr window_new \<and> Window window_config = Some 3 \<and>
   Decay window_config = None \<and>
   pushAll window_new [1, 2, 3, 4, 8] = (window_pushed, None) \<and>
   mean window_pushed = spec_mean [3, 4, 8] \<and>
   sums_m window_pushed ! 2 = spec_central_sum 2 [3, 4, 8] \<and>
   sums_m window_pushed ! 3 = spec_central_sum 3 [3, 4, 8] \<and>
   sums_m window_pushed ! 4 = spec_central_sum 4 [3, 4, 8] \<and>
   sums_m window_pushed ! 2 \<noteq> spec_central_sum 2 [1, 2, 3, 4, 8] \<and>
   sums_m window_pushed ! 3 \<noteq> spec_central_sum 3 [1, 2, 3, 4, 8] \<and>
   sums_m window_pushed ! 4 \<noteq> spec_central_sum 4 [1, 2, 3, 4, 8]"
proof -
  have cfg: "Window window_config = Some 3" "Decay window_config = None"
    by (simp_all add: window_config_def)
  have len: "length (sums_m window_pushed) = 5" by (simp add: window_pushed_def)
  from window_scenario [of window_config window_new] window_NewCore cfg
  have "mean window_pushed = spec_mean [3, 4, 8] \<and>
        (\<forall>k. 1 \<le> k \<and> k < length (sums_m window_pushed) \<longrightarrow>
             sums_m window_pushed ! k = spec_central_sum k [3, 4, 8]) \<and>
        (\<forall>k. 2 \<le> k \<and> k \<le> 4 \<and> k < length (sums_m window_pushed) \<longrightarrow>
             sums_m window_pushed ! k \<noteq> spec_central_sum k [1, 2, 3, 4, 8])"
    by (simp only: window_pushAll) blast
  then have m: "mean window_pushed = spec_mean [3, 4, 8]"
    and e: "\<And>k. 1 \<le> k \<Longrightarrow> k < 5 \<Longrightarrow>
              sums_m window_pushed ! k = spec_central_sum k [3, 4, 8]"
    and n: "\<And>k. 2 \<le> k \<Longrightarrow> k \<le> 4 \<Longrightarrow>
              sums_m window_pushed ! k \<noteq> spec_central_sum k [1, 2, 3, 4, 8]"
    unfolding len by auto
  from e [of 2] e [of 3] e [of 4] n [of 2] n [of 3] n [of 4] m
  show ?thesis
    using window_NewCore window_pushAll cfg by simp
qed

text \<open>
  Claim C3, as stated, fails for removal. The engine of one variable tracking the third
  centralized sum with window 3 has seen 1, 2, 4 and evicts 1: \<^verbatim>\<open>remove\<close> of the source
  leaves the third sum 0, which is the sum recomputed over 2 and 4, while a removal that
  reads only the committed sums in its cross terms and commits after the full pass, as the
  claim describes it, leaves -16/3. The cross term of \<^verbatim>\<open>remove\<close> reads the scratch value
  of the second sum, recomputed earlier in the same pass.
\<close>

theorem remove_discipline_counterexample:
  "NewCore_j cube_config = Inr cube_new \<and>
   pushAll_j cube_new [ [1], [2], [4]] = (cube_pushed, None) \<and>
   sums_j (fst (remove_j cube_pushed [1])) (hash [3]) = Some 0 \<and>
   sums_j (fst (remove_j_spec cube_pushed [1])) (hash [3]) = Some (- 16 / 3) \<and>
   spec_central_sum 3 [2, 4] = 0"
  by (simp only: cube_NewCore cube_pushAll cube_remove_source cube_remove_spec)
     (simp add: spec_central_sum_def spec_mean_def)

text \<open>
  Claim C3, amended. In \<^verbatim>\<open>add\<close> and \<^verbatim>\<open>addDecay\<close> of the joint engine (well-formed target
  tuples, one value per variable) the call succeeds and, for every tracked tuple \<open>a\<close>, the
  value committed to \<^verbatim>\<open>sums\<close> is the one computed into the scratch set \<^verbatim>\<open>newSums\<close>, and it
  is a function of the count, the deltas and the sums committed before the push only.
  Every core obtained from \<^verbatim>\<open>NewCore\<close> by pushes and clears is well formed and its scratch
  set equals its committed sums, and \<^verbatim>\<open>UnsafePush\<close> has compared the number of values with
  the number of variables before it calls \<^verbatim>\<open>add\<close>, \<^verbatim>\<open>addDecay\<close> or \<^verbatim>\<open>remove\<close>.
  A removal that leaves the count positive, in an engine whose target tuples share no
  tuple of order 2 or more, succeeds and, for every tracked tuple \<open>a\<close>, commits to \<^verbatim>\<open>sums\<close>
  the value computed into the scratch set: the sum of \<open>a\<close> committed before the removal,
  less the direct term with the inverse coefficient, less the cross terms, which read the
  scratch values that the same removal has computed for the lower tuples.
\<close>

theorem scratch_then_commit:
  "(wf_core c \<and> length xs = length (means c) \<and> a \<in> tracked c \<longrightarrow>
      snd (add_j c xs) = None \<and>
      sums_j (fst (add_j c xs)) (hash a) =
        Some (add_value (real_of_int (count_j c + 1))
                (fst (add_means (real_of_int (count_j c + 1)) xs (means c))) (sums_j c) a) \<and>
      newSums (fst (add_j c xs)) (hash a) = sums_j (fst (add_j c xs)) (hash a)) \<and>
   (wf_core c \<and> length xs = length (means c) \<and> a \<in> tracked c \<longrightarrow>
      snd (addDecay_j c xs) = None \<and>
      sums_j (fst (addDecay_j c xs)) (hash a) =
        Some (addDecay_value
                (if count_j c = 0 then 1 else case decay_j c of Some d \<Rightarrow> d | None \<Rightarrow> 0)
                (fst (addDecay_means
                        (if count_j c = 0 then 1 else case decay_j c of Some d \<Rightarrow> d | None \<Rightarrow> 0)
                        xs (means c))) (sums_j c) a) \<and>
      newSums (fst (addDecay_j c xs)) (hash a) = sums_j (fst (addDecay_j c xs)) (hash a)) \<and>
   (reachable_j config c \<longrightarrow> wf_core c \<and> newSums c = sums_j c) \<and>
   (wf_core c \<and> newSums c = sums_j c \<and> separated (tuples c) \<and>
    length xs = length (means c) \<and> 1 < count_j c \<and> a \<in> tracked c \<longrightarrow>
      snd (remove_j c xs) = None \<and>
      sums_j (fst (remove_j c xs)) (hash a) =
        Some (remove_value (real_of_int (count_j c - 1))
                (fst (remove_means (real_of_int (count_j c - 1)) xs (means c)))
                (sums_j c) (newSums (fst (remove_j c xs))) a) \<and>
      newSums (fst (remove_j c xs)) (hash a) = sums_j (fst (remove_j c xs)) (hash a))"
proof -
  have "newSums (fst (remove_j c xs)) (hash a) = sums_j (fst (remove_j c xs)) (hash a)"
    if "wf_core c" "newSums c = sums_j c" "separated (tuples c)"
      "length xs = length (means c)" "1 < count_j c"
    using remove_j_closed(2) [OF that(1,4,5,2,3)] by simp
  then show ?thesis
    by (simp add: add_j_closed addDecay_j_closed remove_j_closed(1,3)
        reachable_j_wf_core reachable_j_agree)
qed

text \<open>
  Witness for C3: the engine that has seen 1, 2, 4, its tracked tuple 3 and a push of 8; the
  new decayed covariance engine and a push of (3, 5); the engine with the target tuples 1
  and 3 that has seen 1, 2, 4, and the removal of 1, which leaves the third sum 0, the sum
  recomputed over 2 and 4.
\<close>

theorem scratch_then_commit_witness:
  "wf_core cube_pushed \<and> length [8 :: real] = length (means cube_pushed) \<and>
   [3] \<in> tracked cube_pushed \<and>
   snd (add_j cube_pushed [8]) = None \<and>
   newSums (fst (add_j cube_pushed [8])) (hash [3]) =
     sums_j (fst (add_j cube_pushed [8])) (hash [3]) \<and>
   wf_core cov_new \<and> length [3, 5 :: real] = length (means cov_new) \<and>
   [1, 1] \<in> tracked cov_new \<and>
   snd (addDecay_j cov_new [3, 5]) = None \<and>
   reachable_j pair_config pair_pushed \<and>
   wf_core pair_pushed \<and> newSums pair_pushed = sums_j pair_pushed \<and>
   separated (tuples pair_pushed) \<and> length [1 :: real] = length (means pair_pushed) \<and>
   1 < count_j pair_pushed \<and> [3] \<in> tracked pair_pushed \<and>
   snd (remove_j pair_pushed [1]) = None \<and>
   sums_j (fst (remove_j pair_pushed [1])) (hash [3]) = Some 0 \<and>
   remove_value (real_of_int (count_j pair_pushed - 1))
     (fst (remove_means (real_of_int (count_j pair_pushed - 1)) [1] (means pair_pushed)))
     (sums_j pair_pushed) (newSums (fst (remove_j pair_pushed [1]))) [3] = 0 \<and>
   newSums (fst (remove_j pair_pushed [1])) (hash [3]) = Some 0"
proof -
  have wf: "wf_core cube_pushed" "length [8 :: real] = length (means cube_pushed)"
    "[3] \<in> tracked cube_pushed"
    by (simp_all add: wf_core_def wf_tuple_def cube_pushed_def tracked_def tuples_upto_iff
        del: tuples_upto.simps)
  have wfd: "wf_core cov_new" "length [3, 5 :: real] = length (means cov_new)"
    "[1, 1] \<in> tracked cov_new"
    by (simp_all add: wf_core_def wf_tuple_def cov_new_def tracked_def tuples_upto_iff
        del: tuples_upto.simps)
  have wfp: "length [1 :: real] = length (means pair_pushed)" "1 < count_j pair_pushed"
    "[3] \<in> tracked pair_pushed"
    by (simp_all add: pair_pushed_def tracked_def tuples_upto_iff del: tuples_upto.simps)
  have sep: "separated (tuples pair_pushed)"
    by (auto simp: pair_pushed_def tuples_upto_iff abs_T_def list_all2_Cons2
        simp del: tuples_upto.simps)
  note add = scratch_then_commit [of cube_pushed "[8]" "[3]" pair_config]
  note dec = scratch_then_commit [of cov_new "[3, 5]" "[1, 1]" pair_config]
  note rem = scratch_then_commit [of pair_pushed "[1]" "[3]" pair_config]
  from add wf have 1: "snd (add_j cube_pushed [8]) = None \<and>
    newSums (fst (add_j cube_pushed [8])) (hash [3]) =
     sums_j (fst (add_j cube_pushed [8])) (hash [3])" by blast
  from dec wfd have 2: "snd (addDecay_j cov_new [3, 5]) = None" by blast
  from rem reachable_pair_pushed
  have 3: "wf_core pair_pushed" "newSums pair_pushed = sums_j pair_pushed" by blast+
  from rem 3 sep wfp have 4: "snd (remove_j pair_pushed [1]) = None"
    "sums_j (fst (remove_j pair_pushed [1])) (hash [3]) =
        Some (remove_value (real_of_int (count_j pair_pushed - 1))
                (fst (remove_means (real_of_int (count_j pair_pushed - 1)) [1] (means pair_pushed)))
                (sums_j pair_pushed) (newSums (fst (remove_j pair_pushed [1]))) [3])"
    "newSums (fst (remove_j pair_pushed [1])) (hash [3]) =
       sums_j (fst (remove_j pair_pushed [1])) (hash [3])"
    by blast+
  from 4(2) have 5: "remove_value (real_of_int (count_j pair_pushed - 1))
     (fst (remove_means (real_of_int (count_j pair_pushed - 1)) [1] (means pair_pushed)))
     (sums_j pair_pushed) (newSums (fst (remove_j pair_pushed [1]))) [3] = 0"
    by (simp only: pair_remove_source(1) option.inject)
  from 4(3) have 6: "newSums (fst (remove_j pair_pushed [1])) (hash [3]) = Some 0"
    by (simp only: pair_remove_source(1))
  from wf wfd wfp sep 1 2 3 4(1) 5 6 reachable_pair_pushed pair_remove_source(1)
  show ?thesis by blast
qed





text \<open>
  Claim C5, as stated, fails: after 1, 2, 3, 4 the fourth centralized sum of the engine is
  10.25, at distance 6 from the 16.25 of the claim.
\<close>

theorem push_1234_counterexample:
  "NewCore scenario_config = Inr scenario_new \<and>
   pushAll scenario_new [1, 2, 3, 4] = (scenario_pushed, None) \<and>
   sums_m scenario_pushed ! 4 = 41 / 4 \<and>
   \<bar>sums_m scenario_pushed ! 4 - 16.25\<bar> = 6"
  by (simp add: scenario_NewCore scenario_pushAll) (simp add: scenario_pushed_def)

text \<open>
  Claim C5, amended. Pushing 1, 2, 3, 4 into the unbounded, undecayed engine tracking the
  orders 1 to 4 gives the mean 2.5, the second centralized sum 5, the third 0 and the
  fourth 10.25, which is the fourth centralized sum recomputed from the observations.
\<close>

theorem push_1234_scenario:
  "NewCore scenario_config = Inr scenario_new \<and>
   pushAll scenario_new [1, 2, 3, 4] = (scenario_pushed, None) \<and>
   mean scenario_pushed = 2.5 \<and>
   sums_m scenario_pushed ! 2 = 5 \<and>
   sums_m scenario_pushed ! 3 = 0 \<and>
   sums_m scenario_pushed ! 4 = 10.25 \<and>
   sums_m scenario_pushed ! 2 = spec_central_sum 2 [1, 2, 3, 4] \<and>
   sums_m scenario_pushed ! 3 = spec_central_sum 3 [1, 2, 3, 4] \<and>
   sums_m scenario_pushed ! 4 = spec_central_sum 4 [1, 2, 3, 4]"
  by (simp add: scenario_NewCore scenario_pushAll)
     (simp add: scenario_pushed_def spec_central_sum_def spec_mean_def power_def)

text \<open>
  Claim C6. In every reachable state of the univariate and of the joint engine, a count
  of 0 implies that every mean and every accumulator in \<^verbatim>\<open>sums\<close> is exactly 0. In
  particular a removal that brings the count from 1 to 0 runs no inverse arithmetic: it
  returns the state with the count 0 and every mean and accumulator set to 0.
\<close>

theorem zero_count_invariant:
  "(reachable config c \<and> count c = 0 \<longrightarrow> mean c = 0 \<and> (\<forall>v\<in>set (sums_m c). v = 0)) \<and>
   (count c = 1 \<longrightarrow>
      remove c x = c\<lparr>count := 0, mean := 0, sums_m := map (\<lambda>_. 0) (sums_m c)\<rparr>) \<and>
   (reachable_j config_j c_j \<and> count_j c_j = 0 \<longrightarrow>
      (\<forall>m\<in>set (means c_j). m = 0) \<and> (\<forall>h v. sums_j c_j h = Some v \<longrightarrow> v = 0)) \<and>
   (count_j c_j = 1 \<longrightarrow>
      remove_j c_j xs =
        (c_j\<lparr>count_j := 0, means := map (\<lambda>_. 0) (means c_j),
             sums_j := map_option (\<lambda>_. 0) \<circ> sums_j c_j,
             newSums := map_option (\<lambda>_. 0) \<circ> newSums c_j\<rparr>, None))"
proof (intro conjI impI)
  assume "reachable config c \<and> count c = 0"
  then show "mean c = 0" "\<forall>v\<in>set (sums_m c). v = 0"
    using reachable_core_inv [of config c] by (simp_all add: core_inv_def)
next
  assume "count c = 1"
  then show "remove c x = c\<lparr>count := 0, mean := 0, sums_m := map (\<lambda>_. 0) (sums_m c)\<rparr>"
    by (simp add: remove_reset)
next
  assume "reachable_j config_j c_j \<and> count_j c_j = 0"
  then show "\<forall>m\<in>set (means c_j). m = 0" "\<forall>h v. sums_j c_j h = Some v \<longrightarrow> v = 0"
    using reachable_j_jinv [of config_j c_j] by (simp_all add: jinv_def)
next
  assume "count_j c_j = 1"
  then show "remove_j c_j xs =
        (c_j\<lparr>count_j := 0, means := map (\<lambda>_. 0) (means c_j),
             sums_j := map_option (\<lambda>_. 0) \<circ> sums_j c_j,
             newSums := map_option (\<lambda>_. 0) \<circ> newSums c_j\<rparr>, None)"
    by (simp add: remove_j_reset)
qed

text \<open>Witness for C6: the new engines, and the engines after one push.\<close>

theorem zero_count_invariant_witness:
  "reachable decayed_config decayed_new \<and> count decayed_new = 0 \<and>
   mean decayed_new = 0 \<and> sums_m decayed_new ! 2 = 0 \<and>
   count decayed_pushed = 1 \<and>
   remove decayed_pushed 3 =
     decayed_pushed\<lparr>count := 0, mean := 0, sums_m := map (\<lambda>_. 0) (sums_m decayed_pushed)\<rparr> \<and>
   reachable_j cov_config cov_new \<and> count_j cov_new = 0 \<and>
   means cov_new ! 1 = 0 \<and> the (sums_j cov_new [1, 1]) = 0 \<and>
   count_j cov_pushed = 1 \<and>
   remove_j cov_pushed [3, 5] =
     (cov_pushed\<lparr>count_j := 0, means := map (\<lambda>_. 0) (means cov_pushed),
                 sums_j := map_option (\<lambda>_. 0) \<circ> sums_j cov_pushed,
                 newSums := map_option (\<lambda>_. 0) \<circ> newSums cov_pushed\<rparr>, None)"
proof -
  have r: "reachable decayed_config decayed_new" by (rule reachable_new [OF decayed_NewCore])
  have z: "count decayed_new = 0" by (simp add: decayed_new_def)
  have o: "count decayed_pushed = 1" by (simp add: decayed_pushed_def)
  have zj: "count_j cov_new = 0" by (simp add: cov_new_def)
  have oj: "count_j cov_pushed = 1" by (simp add: cov_pushed_def)
  have mem: "sums_m decayed_new ! 2 \<in> set (sums_m decayed_new)"
    "means cov_new ! 1 \<in> set (means cov_new)"
    "sums_j cov_new [1, 1] = Some (the (sums_j cov_new [1, 1]))"
    by (simp_all add: decayed_new_def cov_new_def cov_init_def)
  note new = zero_count_invariant [of decayed_config decayed_new 3 cov_config cov_new "[3, 5]"]
  note pushed = zero_count_invariant [of decayed_config decayed_pushed 3 cov_config cov_pushed "[3, 5]"]
  from new r z mem have "mean decayed_new = 0 \<and> sums_m decayed_new ! 2 = 0" by blast
  moreover from new reachable_cov_new zj mem
  have "means cov_new ! 1 = 0 \<and> the (sums_j cov_new [1, 1]) = 0"
    by blast
  moreover from pushed o have "remove decayed_pushed 3 =
     decayed_pushed\<lparr>count := 0, mean := 0, sums_m := map (\<lambda>_. 0) (sums_m decayed_pushed)\<rparr>"
    by blast
  moreover from pushed oj have "remove_j cov_pushed [3, 5] =
     (cov_pushed\<lparr>count_j := 0, means := map (\<lambda>_. 0) (means cov_pushed),
                 sums_j := map_option (\<lambda>_. 0) \<circ> sums_j cov_pushed,
                 newSums := map_option (\<lambda>_. 0) \<circ> newSums cov_pushed\<rparr>, None)"
    by blast
  ultimately show ?thesis using r z o zj oj reachable_cov_new by blast
qed

text \<open>
  Claim C7. The first push of \<open>x\<close> into a decayed engine with count 0 sets the mean to
  exactly \<open>x\<close>, whatever the configured decay is; in the joint engine the first push of
  \<open>xs\<close> (one value per variable) sets the means to exactly \<open>xs\<close>.
\<close>

theorem decay_bootstrap:
  "(reachable config c \<and> count c = 0 \<and> decay c = Some d \<longrightarrow>
      mean (fst (UnsafePush c x)) = x \<and> snd (UnsafePush c x) = None) \<and>
   (reachable_j config_j c_j \<and> count_j c_j = 0 \<and> decay_j c_j = Some d_j \<and>
    length xs = length (means c_j) \<longrightarrow>
      means (fst (UnsafePush_j c_j xs)) = xs)"
proof (intro conjI impI)
  assume a: "reachable config c \<and> count c = 0 \<and> decay c = Some d"
  then have inv: "core_inv c" by (blast intro: reachable_core_inv)
  from a inv have m: "mean c = 0" by (simp add: core_inv_def)
  from UnsafePush_first_decayed [OF inv] a
  show "mean (fst (UnsafePush c x)) = x" "snd (UnsafePush c x) = None"
    using m by (simp_all add: addDecay_first)
next
  assume a: "reachable_j config_j c_j \<and> count_j c_j = 0 \<and> decay_j c_j = Some d_j \<and>
    length xs = length (means c_j)"
  then have inv: "jinv c_j" by (blast intro: reachable_j_jinv)
  from a inv have m: "\<forall>m\<in>set (means c_j). m = 0" by (simp add: jinv_def)
  from UnsafePush_j_first_decayed [OF inv] a
  show "means (fst (UnsafePush_j c_j xs)) = xs"
    using m by (simp add: addDecay_j_first)
qed

text \<open>Witness for C7: the new decayed engines with decay 1/4.\<close>

theorem decay_bootstrap_witness:
  "reachable decayed_config decayed_new \<and> count decayed_new = 0 \<and>
   decay decayed_new = Some (1 / 4) \<and>
   mean (fst (UnsafePush decayed_new 3)) = 3 \<and>
   reachable_j cov_config cov_new \<and> count_j cov_new = 0 \<and>
   decay_j cov_new = Some (1 / 4) \<and> length [3, 5 :: real] = length (means cov_new) \<and>
   means (fst (UnsafePush_j cov_new [3, 5])) = [3, 5]"
  using reachable_new [OF decayed_NewCore] reachable_cov_new
    decay_bootstrap [of decayed_config decayed_new "1 / 4" 3 cov_config cov_new "1 / 4" "[3, 5]"]
  by (simp add: decayed_new_def cov_new_def)

text \<open>
  Claim C8. A push into the joint engine whose number of values differs from the number of
  tracked variables returns the arity-mismatch error and leaves the whole engine state
  (means, sums, count and window buffer) unchanged.
\<close>

theorem push_arity_mismatch:
  "length xs \<noteq> length (means c) \<Longrightarrow>
   UnsafePush_j c xs = (c, Some (ArityMismatch (length xs) (length (means c))))"
  by (simp add: UnsafePush_j_def)

text \<open>Witness for C8: one value pushed into the engine of two variables.\<close>

theorem push_arity_mismatch_witness:
  "length [1 :: real] \<noteq> length (means cov_pushed) \<and>
   UnsafePush_j cov_pushed [1] = (cov_pushed, Some (ArityMismatch 1 2))"
  using push_arity_mismatch [of "[1]" cov_pushed] by (simp add: cov_pushed_def)

text \<open>
  Claim C9. In the joint engine with count 0, \<^verbatim>\<open>Mean(i)\<close> for any index and \<^verbatim>\<open>Sum(t)\<close> for
  any tuple return the no-values error; in a reachable state the untracked-variable and
  untracked-sum errors are only returned when the count is positive.
\<close>

theorem no_values_precedence:
  "(count_j c = 0 \<longrightarrow>
      UnsafeMean_j c i = Inl ErrorNoValuesSeen \<and> UnsafeSum_j c t = Inl ErrorNoValuesSeen) \<and>
   (reachable_j config c \<longrightarrow>
      (UnsafeMean_j c i = Inl (NotTrackedVariable i') \<longrightarrow> 0 < count_j c) \<and>
      (UnsafeSum_j c t = Inl (NotTrackedTuple t') \<longrightarrow> 0 < count_j c))"
proof (intro conjI impI)
  assume "reachable_j config c" 
  then have "0 \<le> count_j c" using reachable_j_jinv [of config c] by (simp add: jinv_def)
  moreover have "count_j c \<noteq> 0" if "UnsafeMean_j c i = Inl (NotTrackedVariable i')"
    using that by (auto simp: UnsafeMean_j_def split: if_splits)
  moreover have "count_j c \<noteq> 0" if "UnsafeSum_j c t = Inl (NotTrackedTuple t')"
    using that by (auto simp: UnsafeSum_j_def split: if_splits)
  ultimately show "UnsafeMean_j c i = Inl (NotTrackedVariable i') \<Longrightarrow> 0 < count_j c"
    "UnsafeSum_j c t = Inl (NotTrackedTuple t') \<Longrightarrow> 0 < count_j c"
    by force+
qed (simp_all add: UnsafeMean_j_def UnsafeSum_j_def)

text \<open>Witness for C9: the new engine, and the engine after one push.\<close>

theorem no_values_precedence_witness:
  "count_j cov_new = 0 \<and>
   UnsafeMean_j cov_new (- 1) = Inl ErrorNoValuesSeen \<and>
   UnsafeSum_j cov_new [7, 7] = Inl ErrorNoValuesSeen \<and>
   reachable_j cov_config cov_pushed \<and>
   UnsafeMean_j cov_pushed 2 = Inl (NotTrackedVariable 2) \<and>
   UnsafeSum_j cov_pushed [7, 7] = Inl (NotTrackedTuple [7, 7]) \<and>
   0 < count_j cov_pushed"
proof -
  have m: "UnsafeMean_j cov_pushed 2 = Inl (NotTrackedVariable 2)"
    by (simp add: UnsafeMean_j_def cov_pushed_def)
  have s: "UnsafeSum_j cov_pushed [7, 7] = Inl (NotTrackedTuple [7, 7])"
    by (simp add: UnsafeSum_j_def cov_pushed_def cov_init_def hash_def)
  have z: "count_j cov_new = 0" by (simp add: cov_new_def)
  from no_values_precedence [of cov_new "- 1" "[7, 7]" cov_config 2 "[7, 7]"] z
    no_values_precedence [of cov_pushed 2 "[7, 7]" cov_config 2 "[7, 7]"]
    reachable_cov_pushed m s
  show ?thesis by simp
qed

text \<open>
  Claim C10. In the univariate engine \<^verbatim>\<open>add\<close> and \<^verbatim>\<open>addDecay\<close> never change the
  accumulators of the orders 0 and 1, and \<^verbatim>\<open>remove\<close> leaves them as they are in every
  reachable state; so whenever the count is positive and order 1 is in range, \<^verbatim>\<open>Sum(1)\<close>
  succeeds and returns exactly 0.
\<close>

theorem low_orders_untouched:
  "(\<forall>j<2. sums_m (add c x) ! j = sums_m c ! j \<and> sums_m (addDecay c x) ! j = sums_m c ! j) \<and>
   (reachable config c \<longrightarrow>
      (\<forall>j<2. j < length (sums_m c) \<longrightarrow> sums_m (remove c x) ! j = sums_m c ! j) \<and>
      (0 < count c \<and> 1 < length (sums_m c) \<longrightarrow> UnsafeSum c 1 = Inr 0))"
proof (intro conjI impI allI)
  fix j :: nat assume "j < 2"
  then show "sums_m (add c x) ! j = sums_m c ! j" "sums_m (addDecay c x) ! j = sums_m c ! j"
    by (simp_all add: add_low_orders addDecay_low_orders)
next
  fix j :: nat assume r: "reachable config c" and j: "j < 2" "j < length (sums_m c)"
  from r have inv: "core_inv c" by (rule reachable_core_inv)
  show "sums_m (remove c x) ! j = sums_m c ! j"
  proof (cases "1 < count c")
    case True
    with j show ?thesis by (simp add: remove_low_orders)
  next
    case False
    with inv j show ?thesis by (simp add: remove_reset core_inv_def)
  qed
next
  assume r: "reachable config c" and "0 < count c \<and> 1 < length (sums_m c)"
  with reachable_core_inv [OF r] show "UnsafeSum c 1 = Inr 0"
    by (simp add: UnsafeSum_def core_inv_def)
qed

text \<open>Witness for C10: the windowed engine that has seen 1, 2, 3, 4, 8.\<close>

theorem low_orders_untouched_witness:
  "reachable window_config window_pushed \<and> (1::nat) < 2 \<and> 1 < length (sums_m window_pushed) \<and>
   0 < count window_pushed \<and>
   sums_m (add window_pushed 7) ! 1 = sums_m window_pushed ! 1 \<and>
   sums_m (remove window_pushed 3) ! 1 = sums_m window_pushed ! 1 \<and>
   UnsafeSum window_pushed 1 = Inr 0"
  using reachable_window_pushed low_orders_untouched [of window_pushed 7 window_config]
    low_orders_untouched [of window_pushed 3 window_config]
  by (simp add: window_pushed_def)

end
